theory Spec2Isabelle
  imports Main "HOL-Library.Word"
begin

section \<open>String primitives used by \<open>Ini\<close>\<close>

text \<open>
  \<open>std::string\<close> is a byte string, here \<^typ>\<open>string\<close>. The positions returned by
  \<open>std::string::find\<close> are \<^typ>\<open>nat option\<close>, with \<open>None\<close> for \<open>npos\<close>.
\<close>

definition whitespaces :: "char list" where
  "whitespaces = [CHR '' '', CHR 0x09, CHR 0x0A, CHR 0x0D, CHR 0x0C, CHR 0x0B]"

definition is_ws :: "char \<Rightarrow> bool" where
  "is_ws c = (c \<in> set whitespaces)"

text \<open>
  \<open>trim\<close>: the text after the last non-whitespace character is erased, then the text before
  the first one; a string of whitespace only is cleared.
\<close>

definition trim :: "string \<Rightarrow> string" where
  "trim str =
     (let kept = rev (dropWhile is_ws (rev str))
      in if kept = [] then [] else dropWhile is_ws kept)"

text \<open>\<open>str.find(c)\<close> for a character: the position of its first occurrence.\<close>

definition find_char :: "char \<Rightarrow> string \<Rightarrow> nat option" where
  "find_char c str =
     (if c \<in> set str then Some (length (takeWhile (\<lambda>x. x \<noteq> c) str)) else None)"

text \<open>\<open>str.substr(pos, n)\<close> for \<open>pos \<le> size\<close>, and \<open>str.substr(pos, npos)\<close>.\<close>

definition substr :: "string \<Rightarrow> nat \<Rightarrow> nat \<Rightarrow> string" where
  "substr str pos n = take n (drop pos str)"

definition substr_from :: "string \<Rightarrow> nat \<Rightarrow> string" where
  "substr_from str pos = drop pos str"

text \<open>\<open>str.c_str()\<close> read as a C string: the bytes before the first NUL.\<close>

definition c_str :: "string \<Rightarrow> string" where
  "c_str str = takeWhile (\<lambda>c. c \<noteq> CHR 0x00) str"

text \<open>\<open>line.find(prefix) == 0\<close>: the line starts with the prefix.\<close>

definition starts_with :: "string \<Rightarrow> string \<Rightarrow> bool" where
  "starts_with line p = (take (length p) line = p)"

section \<open>The parser object and the file it names\<close>

record ini =
  file_path :: string
  field_separator :: char
  comment_prefix_list :: "string list"

definition Ini :: "string \<Rightarrow> ini" where
  "Ini path =
     \<lparr> file_path = c_str path, field_separator = CHR ''='',
       comment_prefix_list = [''#'', '';''] \<rparr>"

definition set_field_separator :: "ini \<Rightarrow> char \<Rightarrow> ini" where
  "set_field_separator this sep = this\<lparr> field_separator := sep \<rparr>"

definition set_comment_prefix_list :: "ini \<Rightarrow> string list \<Rightarrow> ini" where
  "set_comment_prefix_list this ps = this\<lparr> comment_prefix_list := ps \<rparr>"

text \<open>
  The file system as far as the class touches it: the content of each path (\<open>None\<close> when
  no file can be opened for reading there) and whether \<open>std::ofstream\<close> can open the path
  for writing.
\<close>

record filesys =
  contents :: "string \<Rightarrow> string option"
  writable :: "string \<Rightarrow> bool"

text \<open>
  \<open>std::ifstream ifs(path); iss << ifs.rdbuf();\<close> copies the whole file into the string
  stream. Nothing is copied from a missing or an empty file, and then the insertion sets the
  fail bit of \<open>iss\<close>.
\<close>

record sstream =
  buf :: string
  eofbit :: bool
  failbit :: bool

definition load_text :: "filesys \<Rightarrow> string \<Rightarrow> string" where
  "load_text fs path = (case contents fs path of None \<Rightarrow> [] | Some text \<Rightarrow> text)"

definition load_stream :: "string \<Rightarrow> sstream" where
  "load_stream text = \<lparr> buf = text, eofbit = False, failbit = (text = []) \<rparr>"

text \<open>
  \<open>std::getline(iss, line, '\n')\<close>: the line is cleared, characters are moved to it up to
  the delimiter, which is consumed and dropped. Reaching the end of the data sets the eof bit,
  and the fail bit as well when no character at all was extracted.
\<close>

definition getline :: "sstream \<Rightarrow> string \<times> sstream" where
  "getline s =
     (let line = takeWhile (\<lambda>c. c \<noteq> CHR 0x0A) (buf s);
          rest = dropWhile (\<lambda>c. c \<noteq> CHR 0x0A) (buf s)
      in if rest = []
         then (line, s\<lparr> buf := [], eofbit := True, failbit := (failbit s \<or> line = []) \<rparr>)
         else (line, s\<lparr> buf := tl rest \<rparr>))"

text \<open>
  The head of both loops, \<open>while (!iss.eof() && !iss.fail()) { std::getline(iss, line, '\n'); ... }\<close>:
  the values \<open>line\<close> takes, in order, as long as the body does not return.
\<close>

function stream_lines :: "sstream \<Rightarrow> string list" where
  "stream_lines s =
     (if \<not> eofbit s \<and> \<not> failbit s
      then fst (getline s) # stream_lines (snd (getline s))
      else [])"
  by pat_completeness auto
termination
proof (relation "measure (\<lambda>s. length (buf s) + (if eofbit s then 0 else 1))")
  show "wf (measure (\<lambda>s. length (buf s) + (if eofbit s then 0 else 1)))"
    by simp
next
  fix s :: sstream
  assume "\<not> eofbit s \<and> \<not> failbit s"
  then show "(snd (getline s), s) \<in> measure (\<lambda>s. length (buf s) + (if eofbit s then 0 else 1))"
    by (cases "dropWhile (\<lambda>c. c \<noteq> CHR 0x0A) (buf s)")
       (auto simp: getline_def Let_def less_Suc_eq_le
             intro: le_trans [OF _ length_dropWhile_le [of "\<lambda>c. c \<noteq> CHR 0x0A"]]
             dest: arg_cong [where f = length])
qed

declare stream_lines.simps [simp del]

definition is_ignore_line :: "ini \<Rightarrow> string \<Rightarrow> bool" where
  "is_ignore_line this line =
     (if length line = 0 then True
      else list_ex (\<lambda>p. starts_with line p) (comment_prefix_list this))"

text \<open>\<open>line[0] == '['\<close>, evaluated on non-empty lines only.\<close>

definition opens_bracket :: "string \<Rightarrow> bool" where
  "opens_bracket line = (case line of [] \<Rightarrow> False | c # _ \<Rightarrow> c = CHR ''['')"

section \<open>The read path: \<open>try_get_field\<close>\<close>

text \<open>
  One pass of the loop body either goes on to the next line with a current section
  (\<open>Next\<close>), or leaves the function: \<open>Return None\<close> is \<open>return false\<close>, \<open>Return (Some v)\<close>
  is \<open>return true\<close> with \<open>value = v\<close>.
\<close>

datatype scan = Next string | Return "string option"

definition get_step :: "ini \<Rightarrow> string \<Rightarrow> string \<Rightarrow> string \<Rightarrow> string \<Rightarrow> scan" where
  "get_step this target_section target_field current_section raw =
     (let line = trim raw in
      if is_ignore_line this line then Next current_section
      else if opens_bracket line then
        (case find_char CHR '']'' line of
           None \<Rightarrow> Return None
         | Some pos \<Rightarrow>
             if pos = 1 then Return None
             else Next (substr line 1 (pos - 1)))
      else if current_section = [] then Return None
      else
        (case find_char (field_separator this) line of
           None \<Rightarrow> Return None
         | Some pos \<Rightarrow>
             let current_field = trim (substr line 0 pos);
                 current_value = trim (substr_from line (pos + 1))
             in if current_section = target_section \<and> current_field = target_field
                then (if length current_value \<noteq> 0 then Return (Some current_value)
                      else Return None)
                else Next current_section))"

fun get_scan :: "ini \<Rightarrow> string \<Rightarrow> string \<Rightarrow> string \<Rightarrow> string list \<Rightarrow> scan" where
  "get_scan this ts tf cur [] = Next cur"
| "get_scan this ts tf cur (raw # rest) =
     (case get_step this ts tf cur raw of
        Next cur' \<Rightarrow> get_scan this ts tf cur' rest
      | Return r \<Rightarrow> Return r)"

text \<open>The function result paired with the file system it leaves, which it only reads.\<close>

definition try_get_field :: "ini \<Rightarrow> filesys \<Rightarrow> string \<Rightarrow> string \<Rightarrow> string option \<times> filesys" where
  "try_get_field this fs target_section target_field =
     (let iss = load_stream (load_text fs (file_path this))
      in (case get_scan this target_section target_field [] (stream_lines iss) of
            Next _ \<Rightarrow> None
          | Return r \<Rightarrow> r, fs))"

section \<open>The value codec of the read path\<close>

text \<open>\<open>::toupper\<close> in the C locale.\<close>

definition toupper :: "char \<Rightarrow> char" where
  "toupper c =
     (let n = (of_char c :: nat) in if 97 \<le> n \<and> n \<le> 122 then char_of (n - 32) else c)"

definition read_bool :: "ini \<Rightarrow> filesys \<Rightarrow> string \<Rightarrow> string \<Rightarrow> bool \<Rightarrow> bool \<times> filesys" where
  "read_bool this fs section_name field_name default_value =
     (case try_get_field this fs section_name field_name of
        (None, fs') \<Rightarrow> (default_value, fs')
      | (Some s, fs') \<Rightarrow>
          (let str = map toupper s in
           if str = ''TRUE'' \<or> str = ''1'' then True
           else if str = ''FALSE'' \<or> str = ''0'' then False
           else default_value, fs'))"

text \<open>
  \<open>std::strtol\<close> belongs to the C library, not to this repository; it is modelled after
  ISO C (7.22.1.4) for the bases the class passes (8, 10 and 16), with \<open>long\<close> of 64 bits:
  white space is skipped, a sign is optional, base 16 accepts \<open>0x\<close> or \<open>0X\<close> in front of a
  hexadecimal digit, and the longest run of digits is converted. \<open>endptr\<close> is the offset in
  \<open>nptr\<close> at which the conversion stopped: 0 when nothing was converted. A value out of range
  is clamped and reported through \<open>erange\<close> (\<open>errno == ERANGE\<close>).
\<close>

definition digit_of :: "char \<Rightarrow> nat option" where
  "digit_of c =
     (let n = (of_char c :: nat) in
      if 48 \<le> n \<and> n \<le> 57 then Some (n - 48)
      else if 97 \<le> n \<and> n \<le> 122 then Some (n - 87)
      else if 65 \<le> n \<and> n \<le> 90 then Some (n - 55)
      else None)"

definition is_digit :: "nat \<Rightarrow> char \<Rightarrow> bool" where
  "is_digit base c = (case digit_of c of None \<Rightarrow> False | Some d \<Rightarrow> d < base)"

definition digit_val :: "char \<Rightarrow> nat" where
  "digit_val c = (case digit_of c of None \<Rightarrow> 0 | Some d \<Rightarrow> d)"

definition digits_val :: "nat \<Rightarrow> string \<Rightarrow> nat" where
  "digits_val base ds = foldl (\<lambda>acc c. acc * base + digit_val c) 0 ds"

definition has_hex_prefix :: "string \<Rightarrow> bool" where
  "has_hex_prefix s =
     (case s of
        c0 # cx # h # _ \<Rightarrow> c0 = CHR ''0'' \<and> (cx = CHR ''x'' \<or> cx = CHR ''X'') \<and> is_digit 16 h
      | _ \<Rightarrow> False)"

definition LONG_MAX :: int where
  "LONG_MAX = 9223372036854775807"

definition LONG_MIN :: int where
  "LONG_MIN = - 9223372036854775808"

record strtol_result =
  result :: int
  endptr :: nat
  erange :: bool

definition strtol :: "string \<Rightarrow> nat \<Rightarrow> strtol_result" where
  "strtol nptr base =
     (let s1 = dropWhile is_ws nptr;
          negative = (case s1 of [] \<Rightarrow> False | c # _ \<Rightarrow> c = CHR ''-'');
          s2 = (case s1 of [] \<Rightarrow> s1
                | c # r \<Rightarrow> if c = CHR ''-'' \<or> c = CHR ''+'' then r else s1);
          s3 = (if base = 16 \<and> has_hex_prefix s2 then drop 2 s2 else s2);
          ds = takeWhile (is_digit base) s3;
          rest = dropWhile (is_digit base) s3;
          v = (if negative then - int (digits_val base ds) else int (digits_val base ds))
      in if ds = [] then \<lparr> result = 0, endptr = 0, erange = False \<rparr>
         else if LONG_MAX < v
           then \<lparr> result = LONG_MAX, endptr = length nptr - length rest, erange = True \<rparr>
         else if v < LONG_MIN
           then \<lparr> result = LONG_MIN, endptr = length nptr - length rest, erange = True \<rparr>
         else \<lparr> result = v, endptr = length nptr - length rest, erange = False \<rparr>)"

text \<open>
  \<open>std::stol(str)\<close>, base 10: \<open>std::invalid_argument\<close> when nothing was converted,
  \<open>std::out_of_range\<close> on \<open>ERANGE\<close>; text left after the number is accepted.
\<close>

datatype stol_error = invalid_argument | out_of_range

definition stol :: "string \<Rightarrow> stol_error + int" where
  "stol str =
     (let r = strtol (c_str str) 10 in
      if endptr r = 0 then Inl invalid_argument
      else if erange r then Inl out_of_range
      else Inr (result r))"

text \<open>\<open>*endptr == '\0'\<close>: the conversion stopped at the end of the C string.\<close>

definition is_convertable_to_long :: "string \<Rightarrow> bool" where
  "is_convertable_to_long val =
     (if endptr (strtol (c_str val) 10) = length (c_str val) then True
      else if endptr (strtol (c_str val) 8) = length (c_str val) then True
      else if endptr (strtol (c_str val) 16) = length (c_str val) then True
      else False)"

text \<open>
  \<open>int\<close> is a 32-bit word. \<open>return value;\<close> narrows the \<open>long\<close> that \<open>std::stol\<close> gave
  to \<open>int\<close>, keeping its low 32 bits.
\<close>

definition read_int :: "ini \<Rightarrow> filesys \<Rightarrow> string \<Rightarrow> string \<Rightarrow> 32 word \<Rightarrow> 32 word \<times> filesys" where
  "read_int this fs section_name field_name default_value =
     (case try_get_field this fs section_name field_name of
        (None, fs') \<Rightarrow> (default_value, fs')
      | (Some str, fs') \<Rightarrow>
          (if \<not> is_convertable_to_long str then default_value
           else (case stol str of
                   Inr v \<Rightarrow> word_of_int v
                 | Inl _ \<Rightarrow> default_value), fs'))"

text \<open>
  \<open>double\<close> is left abstract as the type \<open>'d\<close>; \<open>std::stod\<close> is a parameter that gives
  \<open>None\<close> where the library function throws.
\<close>

definition read_double ::
  "(string \<Rightarrow> 'd option) \<Rightarrow> ini \<Rightarrow> filesys \<Rightarrow> string \<Rightarrow> string \<Rightarrow> 'd \<Rightarrow> 'd \<times> filesys" where
  "read_double stod this fs section_name field_name default_value =
     (case try_get_field this fs section_name field_name of
        (None, fs') \<Rightarrow> (default_value, fs')
      | (Some str, fs') \<Rightarrow>
          (case stod str of Some v \<Rightarrow> v | None \<Rightarrow> default_value, fs'))"

definition read_str :: "ini \<Rightarrow> filesys \<Rightarrow> string \<Rightarrow> string \<Rightarrow> string \<Rightarrow> string \<times> filesys" where
  "read_str this fs section_name field_name default_value =
     (case try_get_field this fs section_name field_name of
        (None, fs') \<Rightarrow> (default_value, fs')
      | (Some str, fs') \<Rightarrow> (str, fs'))"

section \<open>The write path: \<open>set_field\<close>\<close>

datatype FoundMode = NO_MATCH | SECTION_MATCH | BOTH_MATCH

text \<open>
  One pass of the loop body: \<open>None\<close> is \<open>return false\<close>; otherwise the current section, the
  mode and the value of \<open>line\<close> that is written to \<open>oss\<close>, followed by a line feed.
\<close>

definition set_step ::
  "ini \<Rightarrow> string \<Rightarrow> string \<Rightarrow> string \<Rightarrow> string \<Rightarrow> FoundMode \<Rightarrow> string
     \<Rightarrow> (string \<times> FoundMode \<times> string) option" where
  "set_step this target_section target_field val current_section found_mode raw =
     (let line = trim raw in
      if is_ignore_line this line then Some (current_section, found_mode, line)
      else if opens_bracket line then
        (case find_char CHR '']'' line of
           None \<Rightarrow> None
         | Some pos \<Rightarrow>
             if pos = 1 then None
             else
               let current_section' = substr line 1 (pos - 1) in
               if current_section' = target_section
               then Some (current_section', SECTION_MATCH, line)
               else if found_mode = SECTION_MATCH \<and> current_section' \<noteq> target_section
               then Some (current_section', BOTH_MATCH,
                          target_field @ [field_separator this] @ val @ [CHR 0x0A] @ line)
               else Some (current_section', found_mode, line))
      else if current_section = [] then None
      else
        (case find_char (field_separator this) line of
           None \<Rightarrow> None
         | Some pos \<Rightarrow>
             let current_field = trim (substr line 0 pos) in
             if current_section = target_section \<and> current_field = target_field
             then Some (current_section, BOTH_MATCH,
                        c_str target_field @ [field_separator this] @ val)
             else Some (current_section, found_mode, line)))"

fun set_loop ::
  "ini \<Rightarrow> string \<Rightarrow> string \<Rightarrow> string \<Rightarrow> string \<Rightarrow> FoundMode \<Rightarrow> string \<Rightarrow> string list
     \<Rightarrow> (string \<times> FoundMode \<times> string) option" where
  "set_loop this ts tf val cur mode oss [] = Some (cur, mode, oss)"
| "set_loop this ts tf val cur mode oss (raw # rest) =
     (case set_step this ts tf val cur mode raw of
        None \<Rightarrow> None
      | Some (cur', mode', line) \<Rightarrow>
          set_loop this ts tf val cur' mode' (oss @ line @ [CHR 0x0A]) rest)"

text \<open>What is appended to \<open>oss\<close> after the loop.\<close>

definition finish :: "ini \<Rightarrow> string \<Rightarrow> string \<Rightarrow> string \<Rightarrow> FoundMode \<Rightarrow> string" where
  "finish this target_section target_field val found_mode =
     (if found_mode = NO_MATCH
      then [CHR ''[''] @ target_section @ [CHR '']''] @ [CHR 0x0A]
           @ target_field @ [field_separator this] @ val @ [CHR 0x0A]
      else if found_mode = SECTION_MATCH
      then target_field @ [field_separator this] @ val @ [CHR 0x0A]
      else [])"

text \<open>
  \<open>result.pop_back()\<close> is \<^const>\<open>butlast\<close>; the buffer is never empty at that point
  (lemma \<open>set_field_buffer_nonempty\<close>). The file is opened for writing after the loop only.
\<close>

definition set_field :: "ini \<Rightarrow> filesys \<Rightarrow> string \<Rightarrow> string \<Rightarrow> string \<Rightarrow> bool \<times> filesys" where
  "set_field this fs target_section target_field val =
     (let iss = load_stream (load_text fs (file_path this))
      in case set_loop this target_section target_field val [] NO_MATCH [] (stream_lines iss) of
           None \<Rightarrow> (False, fs)
         | Some (current_section, found_mode, oss) \<Rightarrow>
             let result = butlast (oss @ finish this target_section target_field val found_mode)
             in if writable fs (file_path this)
                then (True, fs\<lparr> contents := (contents fs)(file_path this := Some result) \<rparr>)
                else (False, fs))"

text \<open>\<open>ss << value\<close> for an \<open>int\<close>: the decimal digits, after a minus sign when negative.\<close>

fun show_nat :: "nat \<Rightarrow> string" where
  "show_nat n =
     (if n < 10 then [char_of (48 + n)]
      else show_nat (n div 10) @ [char_of (48 + n mod 10)])"

declare show_nat.simps [simp del]

definition show_int :: "int \<Rightarrow> string" where
  "show_int i = (if i < 0 then CHR ''-'' # show_nat (nat (- i)) else show_nat (nat i))"

definition write_bool :: "ini \<Rightarrow> filesys \<Rightarrow> string \<Rightarrow> string \<Rightarrow> bool \<Rightarrow> bool \<times> filesys" where
  "write_bool this fs section_name field_name v =
     set_field this fs section_name field_name (if v then ''true'' else ''false'')"

definition write_int :: "ini \<Rightarrow> filesys \<Rightarrow> string \<Rightarrow> string \<Rightarrow> 32 word \<Rightarrow> bool \<times> filesys" where
  "write_int this fs section_name field_name v =
     set_field this fs section_name field_name (show_int (sint v))"

text \<open>\<open>ss << value\<close> for a \<open>double\<close> is the parameter \<open>show_double\<close>.\<close>

definition write_double ::
  "('d \<Rightarrow> string) \<Rightarrow> ini \<Rightarrow> filesys \<Rightarrow> string \<Rightarrow> string \<Rightarrow> 'd \<Rightarrow> bool \<times> filesys" where
  "write_double show_double this fs section_name field_name v =
     set_field this fs section_name field_name (show_double v)"

definition write_str :: "ini \<Rightarrow> filesys \<Rightarrow> string \<Rightarrow> string \<Rightarrow> string \<Rightarrow> bool \<times> filesys" where
  "write_str this fs section_name field_name v =
     set_field this fs section_name field_name v"

section \<open>Notions used to state the properties\<close>

text \<open>A file system holding one writable file.\<close>

definition single_file :: "string \<Rightarrow> string \<Rightarrow> filesys" where
  "single_file path text =
     \<lparr> contents = (\<lambda>p. if p = path then Some text else None), writable = (\<lambda>p. True) \<rparr>"

text \<open>The text cut at every line feed; the piece after the last line feed is included.\<close>

fun split_nl :: "string \<Rightarrow> string list" where
  "split_nl [] = [[]]"
| "split_nl (c # cs) =
     (if c = CHR 0x0A then [] # split_nl cs
      else (c # hd (split_nl cs)) # tl (split_nl cs))"

text \<open>The buffer \<open>oss\<close> after the given lines were written to it, a line feed after each.\<close>

definition join_nl :: "string list \<Rightarrow> string" where
  "join_nl ls = concat (map (\<lambda>l. l @ [CHR 0x0A]) ls)"

text \<open>
  A line on which both loops return \<open>false\<close>, given the current section: a header without
  \<open>]\<close> or with an empty name, or a line that is neither ignored nor a header and that comes
  before any header or holds no separator.
\<close>

definition malformed :: "ini \<Rightarrow> string \<Rightarrow> string \<Rightarrow> bool" where
  "malformed this current_section raw =
     (let line = trim raw in
      \<not> is_ignore_line this line \<and>
      (if opens_bracket line
       then find_char CHR '']'' line = None \<or> find_char CHR '']'' line = Some 1
       else current_section = [] \<or> find_char (field_separator this) line = None))"

text \<open>The trimmed name and value of a field-assignment line.\<close>

definition field_assignment :: "ini \<Rightarrow> string \<Rightarrow> (string \<times> string) option" where
  "field_assignment this raw =
     (let line = trim raw in
      if is_ignore_line this line \<or> opens_bracket line then None
      else (case find_char (field_separator this) line of
              None \<Rightarrow> None
            | Some pos \<Rightarrow> Some (trim (substr line 0 pos), trim (substr_from line (pos + 1)))))"

text \<open>The name on a well-formed section-header line.\<close>

definition section_header :: "ini \<Rightarrow> string \<Rightarrow> string option" where
  "section_header this raw =
     (let line = trim raw in
      if is_ignore_line this line \<or> \<not> opens_bracket line then None
      else (case find_char CHR '']'' line of
              None \<Rightarrow> None
            | Some pos \<Rightarrow> if pos = 1 then None else Some (substr line 1 (pos - 1))))"

text \<open>
  \<open>frame this ts tf val cur ls out\<close>: the lines \<open>out\<close> written to the buffer come from the
  input lines \<open>ls\<close>, one for one and in order, \<open>cur\<close> being the current section in front of
  \<open>ls\<close>. A line that assigns the target field while the current section is the target
  section is replaced by the new assignment. Every other line is written trimmed; only in
  front of a header that leaves the target section for a section of another name may the new
  assignment be written as well. After the last line comes nothing, or the new assignment
  when the current section is the target section, or a header of the target section and the
  new assignment.
\<close>

fun frame ::
  "ini \<Rightarrow> string \<Rightarrow> string \<Rightarrow> string \<Rightarrow> string \<Rightarrow> string list \<Rightarrow> string list \<Rightarrow> bool" where
  "frame this ts tf val cur [] out =
     (out = [] \<or> (out = [tf @ [field_separator this] @ val] \<and> cur = ts)
      \<or> out = [[CHR ''[''] @ ts @ [CHR '']''], tf @ [field_separator this] @ val])"
| "frame this ts tf val cur (raw # rest) [] = False"
| "frame this ts tf val cur (raw # rest) (l # out) =
     ((if cur = ts \<and> map_option fst (field_assignment this raw) = Some tf
       then l = c_str tf @ [field_separator this] @ val
       else l = trim raw
            \<or> (l = tf @ [field_separator this] @ val @ [CHR 0x0A] @ trim raw
               \<and> cur = ts \<and> section_header this raw \<noteq> None
               \<and> section_header this raw \<noteq> Some ts))
      \<and> frame this ts tf val
            (case section_header this raw of None \<Rightarrow> cur | Some name \<Rightarrow> name) rest out)"

text \<open>
  Names and values that the parser reads back as they were written: \<open>plain\<close> text is not
  empty, holds no line feed and has no white space at either end.
\<close>

definition plain :: "string \<Rightarrow> bool" where
  "plain s = (s \<noteq> [] \<and> CHR 0x0A \<notin> set s \<and> trim s = s)"

definition names_ok :: "ini \<Rightarrow> string \<Rightarrow> string \<Rightarrow> bool" where
  "names_ok this ts tf =
     (ts \<noteq> [] \<and> CHR 0x0A \<notin> set ts \<and> CHR '']'' \<notin> set ts
      \<and> \<not> is_ignore_line this ([CHR ''[''] @ ts @ [CHR '']''])
      \<and> plain tf \<and> field_separator this \<notin> set tf \<and> CHR 0x00 \<notin> set tf
      \<and> \<not> opens_bracket tf \<and> field_separator this \<noteq> CHR 0x0A)"

definition line_ok :: "ini \<Rightarrow> string \<Rightarrow> string \<Rightarrow> bool" where
  "line_ok this tf val = (\<not> is_ignore_line this (tf @ [field_separator this] @ val))"

section \<open>Basic facts\<close>

lemma try_get_field_snd: "snd (try_get_field this fs ts tf) = fs"
  by (simp add: try_get_field_def Let_def)

lemma get_scan_append:
  "get_scan this ts tf cur (xs @ ys) =
     (case get_scan this ts tf cur xs of
        Next cur' \<Rightarrow> get_scan this ts tf cur' ys
      | Return r \<Rightarrow> Return r)"
  by (induction xs arbitrary: cur) (auto split: scan.splits)

lemma set_loop_append:
  "set_loop this ts tf val cur mode oss (xs @ ys) =
     (case set_loop this ts tf val cur mode oss xs of
        None \<Rightarrow> None
      | Some (cur', mode', oss') \<Rightarrow> set_loop this ts tf val cur' mode' oss' ys)"
  by (induction xs arbitrary: cur mode oss) (auto split: option.splits)

lemma malformed_get_step:
  "malformed this cur raw \<Longrightarrow> get_step this ts tf cur raw = Return None"
  by (auto simp: malformed_def get_step_def Let_def split: if_splits)

lemma malformed_set_step:
  "malformed this cur raw \<Longrightarrow> set_step this ts tf val cur mode raw = None"
  by (auto simp: malformed_def set_step_def Let_def split: if_splits)

lemma set_step_value_independent:
  "map_option (\<lambda>(c, m, l). (c, m)) (set_step this ts tf val cur mode raw) =
   map_option (\<lambda>(c, m, l). (c, m)) (set_step this ts tf val' cur mode raw)"
  by (simp add: set_step_def Let_def split: option.splits)

lemma set_loop_value_independent:
  "map_option (\<lambda>(c, m, b). (c, m)) (set_loop this ts tf val cur mode oss ls) =
   map_option (\<lambda>(c, m, b). (c, m)) (set_loop this ts tf val' cur mode oss' ls)"
proof (induction ls arbitrary: cur mode oss oss')
  case Nil
  then show ?case by simp
next
  case (Cons raw ls)
  show ?case
    using set_step_value_independent [of this ts tf val cur mode raw val'] Cons.IH
    by (auto split: option.splits)
qed

lemma reads_default:
  assumes "fst (try_get_field this fs sec fld) = None"
  shows "fst (read_bool this fs sec fld db) = db"
    and "fst (read_int this fs sec fld di) = di"
    and "fst (read_double stod this fs sec fld dd) = dd"
    and "fst (read_str this fs sec fld ds) = ds"
  using assms
  by (cases "try_get_field this fs sec fld";
      simp add: read_bool_def read_int_def read_double_def read_str_def)+

lemma split_nl_nonempty: "split_nl t \<noteq> []"
  by (cases t) auto

lemma split_nl_append: "split_nl (a @ CHR 0x0A # b) = split_nl a @ split_nl b"
  by (induction a) (auto simp: split_nl_nonempty)

lemma split_nl_no_nl: "CHR 0x0A \<notin> set t \<Longrightarrow> split_nl t = [t]"
  by (induction t) auto

lemma getline_last:
  assumes "CHR 0x0A \<notin> set (buf s)"
  shows "getline s = (buf s, s\<lparr> buf := [], eofbit := True, failbit := (failbit s \<or> buf s = []) \<rparr>)"
proof -
  have d: "dropWhile (\<lambda>c. c \<noteq> CHR 0x0A) (buf s) = []"
    using assms by auto
  have t: "takeWhile (\<lambda>c. c \<noteq> CHR 0x0A) (buf s) = buf s"
    using assms by auto
  show ?thesis
    unfolding getline_def Let_def d t by simp
qed

lemma getline_more:
  assumes "buf s = l @ CHR 0x0A # r" and "CHR 0x0A \<notin> set l"
  shows "getline s = (l, s\<lparr> buf := r \<rparr>)"
proof -
  have d: "dropWhile (\<lambda>c. c \<noteq> CHR 0x0A) (buf s) = CHR 0x0A # r"
    using assms by (auto simp: dropWhile_append3)
  have t: "takeWhile (\<lambda>c. c \<noteq> CHR 0x0A) (buf s) = l"
    using assms by (auto simp: takeWhile_tail)
  show ?thesis
    unfolding getline_def Let_def d t by simp
qed

lemma split_nl_cases:
  "(CHR 0x0A \<notin> set t \<and> split_nl t = [t])
   \<or> (\<exists>l r. t = l @ CHR 0x0A # r \<and> CHR 0x0A \<notin> set l \<and> split_nl t = l # split_nl r)"
proof (cases "CHR 0x0A \<in> set t")
  case False
  then show ?thesis by (simp add: split_nl_no_nl)
next
  case True
  then obtain l r where t: "t = l @ CHR 0x0A # r" and l: "CHR 0x0A \<notin> set l"
    by (auto dest: split_list_first)
  then show ?thesis
    using split_nl_append [of l r] by (auto simp: split_nl_no_nl)
qed

lemma stream_lines_good:
  "\<not> eofbit s \<Longrightarrow> \<not> failbit s \<Longrightarrow> stream_lines s = split_nl (buf s)"
proof (induction "length (buf s)" arbitrary: s rule: less_induct)
  case less
  consider (last) "CHR 0x0A \<notin> set (buf s)" "split_nl (buf s) = [buf s]"
    | (more) l r where "buf s = l @ CHR 0x0A # r" "CHR 0x0A \<notin> set l"
        "split_nl (buf s) = l # split_nl r"
    using split_nl_cases [of "buf s"] by blast
  then show ?case
  proof cases
    case last
    have "stream_lines s = [buf s]"
      using less.prems
      by (subst stream_lines.simps, subst stream_lines.simps)
         (simp add: getline_last [OF last(1)])
    then show ?thesis using last by simp
  next
    case more
    have "stream_lines (s\<lparr> buf := r \<rparr>) = split_nl (buf (s\<lparr> buf := r \<rparr>))"
      using less.prems more(1) by (intro less.hyps) simp_all
    moreover have "stream_lines s = l # stream_lines (s\<lparr> buf := r \<rparr>)"
      using less.prems
      by (subst stream_lines.simps) (simp add: getline_more [OF more(1,2)])
    ultimately show ?thesis using more(3) by simp
  qed
qed

lemma stream_lines_load:
  "stream_lines (load_stream text) = (if text = [] then [] else split_nl text)"
proof (cases "text = []")
  case True
  then show ?thesis by (subst stream_lines.simps) (simp add: load_stream_def)
next
  case False
  then show ?thesis
    using stream_lines_good [of "load_stream text"] by (simp add: load_stream_def)
qed

lemma set_step_empty_line:
  "set_step this ts tf val cur mode [] = Some (cur, mode, [])"
  by (simp add: set_step_def trim_def is_ignore_line_def)

lemma set_loop_buffer_end:
  "set_loop this ts tf val cur mode oss ls = Some (c, m, b) \<Longrightarrow>
     (ls = [] \<and> b = oss) \<or> (b \<noteq> [] \<and> last b = CHR 0x0A)"
proof (induction ls arbitrary: cur mode oss)
  case Nil
  then show ?case by simp
next
  case (Cons raw ls)
  then obtain cur' mode' line where
    step: "set_step this ts tf val cur mode raw = Some (cur', mode', line)" and
    rest: "set_loop this ts tf val cur' mode' (oss @ line @ [CHR 0x0A]) ls = Some (c, m, b)"
    by (auto split: option.splits)
  from Cons.IH [OF rest] show ?case by auto
qed

lemma finish_join_nl:
  "finish this ts tf val mode =
     join_nl (if mode = NO_MATCH
              then [[CHR ''[''] @ ts @ [CHR '']''], tf @ [field_separator this] @ val]
              else if mode = SECTION_MATCH then [tf @ [field_separator this] @ val] else [])"
  by (simp add: finish_def join_nl_def)

lemma join_nl_append: "join_nl (xs @ ys) = join_nl xs @ join_nl ys"
  by (simp add: join_nl_def)

lemma join_nl_Cons: "join_nl (x # xs) = x @ CHR 0x0A # join_nl xs"
  by (simp add: join_nl_def)

lemma set_loop_emits:
  "set_loop this ts tf val cur mode oss ls = Some (c, m, b) \<Longrightarrow> \<exists>out. b = oss @ join_nl out"
proof (induction ls arbitrary: cur mode oss)
  case Nil
  then have "b = oss @ join_nl []" by (simp add: join_nl_def)
  then show ?case by blast
next
  case (Cons raw ls)
  then obtain cur' mode' line where
    rest: "set_loop this ts tf val cur' mode' (oss @ line @ [CHR 0x0A]) ls = Some (c, m, b)"
    by (auto split: option.splits)
  from Cons.IH [OF rest] obtain out where "b = (oss @ line @ [CHR 0x0A]) @ join_nl out"
    by blast
  then have "b = oss @ join_nl (line # out)"
    by (simp add: join_nl_Cons)
  then show ?case by blast
qed

text \<open>
  The mode \<open>SECTION_MATCH\<close> is only held inside the target section; one pass of the loop
  body keeps that, moves the current section as the header on the line says, and writes the
  line as \<^const>\<open>frame\<close> describes.
\<close>

lemma set_step_emits:
  assumes "set_step this ts tf val cur mode raw = Some (cur', mode', line)"
    and "mode = SECTION_MATCH \<longrightarrow> cur = ts"
  shows "cur' = (case section_header this raw of None \<Rightarrow> cur | Some name \<Rightarrow> name)"
    and "mode' = SECTION_MATCH \<longrightarrow> cur' = ts"
    and "if cur = ts \<and> map_option fst (field_assignment this raw) = Some tf
         then line = c_str tf @ [field_separator this] @ val
         else line = trim raw
              \<or> (line = tf @ [field_separator this] @ val @ [CHR 0x0A] @ trim raw
                 \<and> cur = ts \<and> section_header this raw \<noteq> None
                 \<and> section_header this raw \<noteq> Some ts)"
  using assms
  by (auto simp: set_step_def field_assignment_def section_header_def Let_def
           split: if_splits option.splits)

lemma set_loop_section_match:
  assumes "set_loop this ts tf val cur mode oss ls = Some (c, m, b)"
    and "mode = SECTION_MATCH \<longrightarrow> cur = ts"
  shows "m = SECTION_MATCH \<longrightarrow> c = ts"
  using assms
proof (induction ls arbitrary: cur mode oss)
  case Nil
  then show ?case by simp
next
  case (Cons raw ls)
  then obtain cur' mode' line where
    step: "set_step this ts tf val cur mode raw = Some (cur', mode', line)" and
    rest: "set_loop this ts tf val cur' mode' (oss @ line @ [CHR 0x0A]) ls = Some (c, m, b)"
    by (auto split: option.splits)
  from Cons.IH [OF rest set_step_emits(2) [OF step Cons.prems(2)]] show ?case .
qed

lemma set_loop_frame:
  assumes "set_loop this ts tf val cur mode oss ls = Some (c, m, b)"
    and "mode = SECTION_MATCH \<longrightarrow> cur = ts"
    and "frame this ts tf val c [] tail"
  shows "\<exists>out. b = oss @ join_nl out \<and> frame this ts tf val cur ls (out @ tail)"
  using assms(1,2)
proof (induction ls arbitrary: cur mode oss)
  case Nil
  then have "b = oss @ join_nl []" "c = cur"
    by (simp_all add: join_nl_def)
  then show ?case
    using assms(3) by (metis append_Nil)
next
  case (Cons raw ls)
  then obtain cur' mode' line where
    step: "set_step this ts tf val cur mode raw = Some (cur', mode', line)" and
    rest: "set_loop this ts tf val cur' mode' (oss @ line @ [CHR 0x0A]) ls = Some (c, m, b)"
    by (auto split: option.splits)
  note e = set_step_emits [OF step Cons.prems(2)]
  from Cons.IH [OF rest e(2)] obtain out where
    out: "b = (oss @ line @ [CHR 0x0A]) @ join_nl out" "frame this ts tf val cur' ls (out @ tail)"
    by blast
  have "b = oss @ join_nl (line # out)"
    using out(1) by (simp add: join_nl_Cons)
  moreover have "frame this ts tf val cur (raw # ls) ((line # out) @ tail)"
    using e(3) out(2) unfolding e(1) by simp
  ultimately show ?case
    by blast
qed

lemma set_field_buffer_nonempty:
  assumes "set_loop this ts tf val [] NO_MATCH [] ls = Some (c, m, oss)"
  shows "oss @ finish this ts tf val m \<noteq> []"
proof (cases ls)
  case Nil
  then have "m = NO_MATCH"
    using assms by simp
  then show ?thesis
    by (simp add: finish_def)
next
  case (Cons raw rest)
  then show ?thesis
    using set_loop_buffer_end [OF assms] by simp
qed

lemma trim_alt: "trim s = dropWhile is_ws (rev (dropWhile is_ws (rev s)))"
proof (cases "rev (dropWhile is_ws (rev s)) = []")
  case True
  show ?thesis
    unfolding trim_def Let_def True by simp
next
  case False
  then show ?thesis
    unfolding trim_def Let_def by (simp only: if_False)
qed

lemma trim_Nil: "trim [] = []"
  by (simp add: trim_alt)

lemma set_trim: "set (trim s) \<subseteq> set s"
proof
  fix c
  assume "c \<in> set (trim s)"
  then have "c \<in> set (rev (dropWhile is_ws (rev s)))"
    unfolding trim_alt by (rule set_dropWhileD)
  then have "c \<in> set (dropWhile is_ws (rev s))"
    by simp
  then have "c \<in> set (rev s)"
    by (rule set_dropWhileD)
  then show "c \<in> set s"
    by simp
qed

lemma trim_self:
  assumes "s \<noteq> []" and "\<not> is_ws (hd s)" and "\<not> is_ws (last s)"
  shows "trim s = s"
proof -
  have "hd (rev s) = last s"
    using assms(1) by (simp add: hd_rev)
  then have "dropWhile is_ws (rev s) = rev s"
    using assms(3) by (simp add: dropWhile_eq_self_iff)
  moreover have "dropWhile is_ws s = s"
    using assms(2) by (simp add: dropWhile_eq_self_iff)
  ultimately show ?thesis
    by (simp add: trim_alt)
qed

lemma trim_ends:
  assumes "trim s \<noteq> []"
  shows "\<not> is_ws (hd (trim s)) \<and> \<not> is_ws (last (trim s))"
proof -
  let ?x = "rev (dropWhile is_ws (rev s))"
  have t: "trim s = dropWhile is_ws ?x"
    by (rule trim_alt)
  have first: "\<not> is_ws (hd (trim s))"
    using assms unfolding t by (rule hd_dropWhile)
  have x: "?x \<noteq> []"
  proof
    assume "?x = []"
    then have "dropWhile is_ws ?x = []"
      by (simp only: dropWhile.simps)
    with assms t show False by simp
  qed
  then have d: "dropWhile is_ws (rev s) \<noteq> []"
    by (simp only: rev_is_Nil_conv not_False_eq_True)
  then have "\<not> is_ws (hd (dropWhile is_ws (rev s)))"
    by (rule hd_dropWhile)
  then have lastx: "\<not> is_ws (last ?x)"
    by (simp only: last_rev simp_thms)
  have "?x = takeWhile is_ws ?x @ trim s"
    unfolding t by simp
  then have "last ?x = last (trim s)"
    using assms by (metis last_appendR)
  with first lastx show ?thesis by simp
qed

lemma trim_idem: "trim (trim s) = trim s"
proof (cases "trim s = []")
  case True
  then show ?thesis by (simp add: trim_Nil)
next
  case False
  then show ?thesis using trim_ends [OF False] by (simp add: trim_self)
qed

lemma get_step_trim: "get_step this ts tf cur (trim raw) = get_step this ts tf cur raw"
  by (simp add: get_step_def trim_idem)

lemma plain_ends: "plain s \<Longrightarrow> s \<noteq> [] \<and> \<not> is_ws (hd s) \<and> \<not> is_ws (last s)"
  using trim_ends [of s] by (simp add: plain_def)

lemma is_ws_simps:
  "\<not> is_ws CHR ''[''" "\<not> is_ws CHR '']''" "\<not> is_ws CHR ''-''" "is_ws CHR 0x0A"
  by (simp_all add: is_ws_def whitespaces_def)

lemma takeWhile_not_mem: "c \<notin> set a \<Longrightarrow> takeWhile (\<lambda>x. x \<noteq> c) (a @ c # b) = a"
  by (induction a) auto

lemma find_char_append:
  "c \<notin> set a \<Longrightarrow> find_char c (a @ c # b) = Some (length a)"
  by (simp add: find_char_def takeWhile_not_mem)

text \<open>How the read loop takes the two lines that a write adds.\<close>

lemma get_step_assignment:
  assumes "names_ok this ts tf" and "plain val" and "line_ok this tf val"
  shows "get_step this ts tf ts (tf @ [field_separator this] @ val) = Return (Some val)"
proof -
  let ?sep = "field_separator this"
  let ?line = "tf @ [?sep] @ val"
  have tf: "tf \<noteq> []" "\<not> is_ws (hd tf)" "trim tf = tf" "?sep \<notin> set tf" "\<not> opens_bracket tf"
    and ts: "ts \<noteq> []"
    using assms(1) plain_ends [of tf] by (simp_all add: names_ok_def plain_def)
  have val: "val \<noteq> []" "\<not> is_ws (last val)" "trim val = val"
    using assms(2) plain_ends [of val] by (simp_all add: plain_def)
  have "trim ?line = ?line"
    using tf(1,2) val(1,2) by (intro trim_self) simp_all
  moreover have "\<not> is_ignore_line this ?line"
    using assms(3) by (simp add: line_ok_def)
  moreover have "\<not> opens_bracket ?line"
    using tf(1,5) by (cases tf) (simp_all add: opens_bracket_def)
  moreover have "find_char ?sep ?line = Some (length tf)"
    using find_char_append [OF tf(4), of val] by simp
  ultimately show ?thesis
    using ts tf(3) val(1,3)
    by (simp add: get_step_def Let_def substr_def substr_from_def)
qed

lemma get_step_header:
  assumes "names_ok this ts tf"
  shows "get_step this ts tf cur ([CHR ''[''] @ ts @ [CHR '']'']) = Next ts"
proof -
  let ?line = "[CHR ''[''] @ ts @ [CHR '']'']"
  have ts: "ts \<noteq> []" "CHR '']'' \<notin> set ts" "\<not> is_ignore_line this ?line"
    using assms by (simp_all add: names_ok_def)
  have "trim ?line = ?line"
    by (intro trim_self) (simp_all add: is_ws_simps)
  moreover have "opens_bracket ?line"
    by (simp add: opens_bracket_def)
  moreover have "find_char CHR '']'' ?line = Some (Suc (length ts))"
    using find_char_append [of "CHR '']''" "CHR ''['' # ts" "[]"] ts(2) by simp
  ultimately show ?thesis
    using ts(1,3) by (simp add: get_step_def Let_def substr_def)
qed

lemma c_str_id: "CHR 0x00 \<notin> set s \<Longrightarrow> c_str s = s"
  by (auto simp: c_str_def)

lemma split_nl_line_free: "l \<in> set (split_nl t) \<Longrightarrow> CHR 0x0A \<notin> set l"
proof (induction t arbitrary: l)
  case Nil
  then show ?case by simp
next
  case (Cons c cs)
  have hd_in: "hd (split_nl cs) \<in> set (split_nl cs)"
    by (simp add: split_nl_nonempty)
  have tl_in: "l \<in> set (tl (split_nl cs)) \<Longrightarrow> l \<in> set (split_nl cs)" for l
    by (rule list.set_sel(2)[OF split_nl_nonempty])
  show ?case
    using Cons.prems Cons.IH [OF hd_in] Cons.IH [OF tl_in] Cons.IH
    by (auto split: if_splits)
qed

lemma stream_lines_line_free:
  "l \<in> set (stream_lines (load_stream t)) \<Longrightarrow> CHR 0x0A \<notin> set l"
  using split_nl_line_free [of l t]
  by (simp add: stream_lines_load split: if_splits)

lemma join_nl_nonempty: "cs \<noteq> [] \<Longrightarrow> join_nl cs \<noteq> []"
  by (cases cs) (simp_all add: join_nl_Cons)

lemma split_nl_butlast_join:
  "cs \<noteq> [] \<Longrightarrow> split_nl (butlast (join_nl cs)) = concat (map split_nl cs)"
proof (induction cs)
  case Nil
  then show ?case by simp
next
  case (Cons c cs)
  show ?case
  proof (cases "cs = []")
    case True
    then show ?thesis by (simp add: join_nl_def)
  next
    case False
    then have "butlast (join_nl (c # cs)) = c @ CHR 0x0A # butlast (join_nl cs)"
      by (simp add: join_nl_Cons butlast_append join_nl_nonempty)
    then show ?thesis
      using Cons.IH [OF False] by (simp add: split_nl_append)
  qed
qed

lemma set_step_cases:
  assumes "set_step this ts tf val cur mode raw = Some (cur', mode', line)"
    and "mode \<noteq> BOTH_MATCH" and "mode = SECTION_MATCH \<longrightarrow> cur = ts"
  shows "(line = trim raw \<and> get_step this ts tf cur raw = Next cur'
            \<and> mode' \<noteq> BOTH_MATCH \<and> (mode' = SECTION_MATCH \<longrightarrow> cur' = ts))
         \<or> (line = c_str tf @ [field_separator this] @ val \<and> cur = ts)
         \<or> (line = tf @ [field_separator this] @ val @ [CHR 0x0A] @ trim raw \<and> cur = ts)"
  using assms
  by (auto simp: set_step_def get_step_def Let_def split: if_splits option.splits)

lemma set_loop_read_back:
  assumes ok: "names_ok this ts tf" "plain val" "line_ok this tf val"
  shows "set_loop this ts tf val cur mode oss ls = Some (c, m, b) \<Longrightarrow>
         mode \<noteq> BOTH_MATCH \<Longrightarrow> (mode = SECTION_MATCH \<longrightarrow> cur = ts) \<Longrightarrow>
         (\<And>l. l \<in> set ls \<Longrightarrow> CHR 0x0A \<notin> set l) \<Longrightarrow>
         \<exists>chunks. b = oss @ join_nl chunks \<and>
           (get_scan this ts tf cur (concat (map split_nl chunks)) = Return (Some val)
            \<or> (get_scan this ts tf cur (concat (map split_nl chunks)) = Next c
               \<and> m \<noteq> BOTH_MATCH \<and> (m = SECTION_MATCH \<longrightarrow> c = ts)))"
proof (induction ls arbitrary: cur mode oss)
  case Nil
  then have "b = oss @ join_nl []" "get_scan this ts tf cur (concat (map split_nl [])) = Next c"
    "m \<noteq> BOTH_MATCH" "m = SECTION_MATCH \<longrightarrow> c = ts"
    by (simp_all add: join_nl_def)
  then show ?case by blast
next
  case (Cons raw ls)
  let ?asg = "tf @ [field_separator this] @ val"
  obtain cur' mode' line where
    step: "set_step this ts tf val cur mode raw = Some (cur', mode', line)" and
    rest: "set_loop this ts tf val cur' mode' (oss @ line @ [CHR 0x0A]) ls = Some (c, m, b)"
    using Cons.prems(1) by (auto split: option.splits)
  have raw_free: "CHR 0x0A \<notin> set (trim raw)"
    using Cons.prems(4) [of raw] set_trim [of raw] by auto
  have asg_free: "CHR 0x0A \<notin> set ?asg"
    using ok(1,2) by (auto simp: names_ok_def plain_def)
  have asg_read: "get_step this ts tf ts ?asg = Return (Some val)"
    by (rule get_step_assignment [OF ok])
  have asg_line: "split_nl ?asg = [?asg]"
    by (rule split_nl_no_nl [OF asg_free])
  have nul: "c_str tf = tf"
    using ok(1) by (simp add: names_ok_def c_str_id)
  from set_step_cases [OF step Cons.prems(2,3)]
  consider
    (kept) "line = trim raw" "get_step this ts tf cur raw = Next cur'"
      "mode' \<noteq> BOTH_MATCH" "mode' = SECTION_MATCH \<longrightarrow> cur' = ts"
    | (replaced) "line = ?asg" "cur = ts"
    | (inserted) "line = ?asg @ CHR 0x0A # trim raw" "cur = ts"
    by (auto simp: nul)
  then show ?case
  proof cases
    case kept
    from Cons.IH [OF rest kept(3,4)] Cons.prems(4) obtain chunks where
      chunks: "b = (oss @ line @ [CHR 0x0A]) @ join_nl chunks"
        "get_scan this ts tf cur' (concat (map split_nl chunks)) = Return (Some val)
         \<or> (get_scan this ts tf cur' (concat (map split_nl chunks)) = Next c
            \<and> m \<noteq> BOTH_MATCH \<and> (m = SECTION_MATCH \<longrightarrow> c = ts))"
      by auto
    have "b = oss @ join_nl (line # chunks)"
      using chunks(1) by (simp add: join_nl_Cons)
    moreover have "get_scan this ts tf cur (concat (map split_nl (line # chunks)))
                     = get_scan this ts tf cur' (concat (map split_nl chunks))"
      using kept(1,2) get_step_trim [of this ts tf cur raw]
      by (simp add: split_nl_no_nl [OF raw_free])
    ultimately show ?thesis
      using chunks(2) by metis
  next
    case replaced
    from set_loop_emits [OF rest] obtain out where
      out: "b = (oss @ line @ [CHR 0x0A]) @ join_nl out"
      by blast
    have "b = oss @ join_nl (line # out)"
      using out by (simp add: join_nl_Cons)
    moreover have "get_scan this ts tf cur (concat (map split_nl (line # out))) = Return (Some val)"
      using replaced asg_read asg_line by simp
    ultimately show ?thesis by blast
  next
    case inserted
    from set_loop_emits [OF rest] obtain out where
      out: "b = (oss @ line @ [CHR 0x0A]) @ join_nl out"
      by blast
    have "b = oss @ join_nl (line # out)"
      using out by (simp add: join_nl_Cons)
    moreover have "split_nl line = ?asg # split_nl (trim raw)"
      unfolding inserted(1) split_nl_append asg_line by simp
    then have "get_scan this ts tf cur (concat (map split_nl (line # out))) = Return (Some val)"
      using inserted(2) asg_read by simp
    ultimately show ?thesis by blast
  qed
qed

lemma set_field_read_back:
  assumes "set_field this fs ts tf val = (True, fs')"
    and ok: "names_ok this ts tf" "plain val" "line_ok this tf val"
  shows "fst (try_get_field this fs' ts tf) = Some val"
proof -
  let ?ls = "stream_lines (load_stream (load_text fs (file_path this)))"
  let ?asg = "tf @ [field_separator this] @ val"
  let ?hdr = "[CHR ''[''] @ ts @ [CHR '']'']"
  obtain c m oss where
    loop: "set_loop this ts tf val [] NO_MATCH [] ?ls = Some (c, m, oss)"
    using assms(1) by (auto simp: set_field_def Let_def split: option.splits)
  define tail where
    "tail = (if m = NO_MATCH then [?hdr, ?asg] else if m = SECTION_MATCH then [?asg] else [])"
  have new: "load_text fs' (file_path this) = butlast (oss @ finish this ts tf val m)"
    using assms(1) loop by (auto simp: set_field_def Let_def load_text_def split: if_splits)
  have free: "\<And>l. l \<in> set ?ls \<Longrightarrow> CHR 0x0A \<notin> set l"
    by (rule stream_lines_line_free)
  from set_loop_read_back [OF ok loop _ _ free] obtain chunks where
    chunks: "oss = join_nl chunks"
      "get_scan this ts tf [] (concat (map split_nl chunks)) = Return (Some val)
       \<or> (get_scan this ts tf [] (concat (map split_nl chunks)) = Next c
          \<and> m \<noteq> BOTH_MATCH \<and> (m = SECTION_MATCH \<longrightarrow> c = ts))"
    by auto
  have asg_free: "CHR 0x0A \<notin> set ?asg"
    using ok(1,2) by (auto simp: names_ok_def plain_def)
  have hdr_free: "CHR 0x0A \<notin> set ?hdr"
    using ok(1) by (auto simp: names_ok_def)
  have tail_lines: "concat (map split_nl tail) = tail"
    using split_nl_no_nl [OF asg_free] split_nl_no_nl [OF hdr_free] by (simp add: tail_def)
  have buffer: "oss @ finish this ts tf val m = join_nl (chunks @ tail)"
    unfolding finish_join_nl join_nl_append chunks(1) tail_def ..
  have tail_read: "get_scan this ts tf c tail = Return (Some val)"
    if "m \<noteq> BOTH_MATCH" "m = SECTION_MATCH \<longrightarrow> c = ts"
    using that get_step_assignment [OF ok] get_step_header [OF ok(1), of c]
    by (cases m) (simp_all add: tail_def)
  have all_lines: "concat (map split_nl (chunks @ tail)) = concat (map split_nl chunks) @ tail"
    using tail_lines by simp
  have found: "get_scan this ts tf [] (concat (map split_nl (chunks @ tail))) = Return (Some val)"
    unfolding all_lines get_scan_append using chunks(2) tail_read by auto
  then have nonempty: "chunks @ tail \<noteq> []"
    by auto
  have lines: "split_nl (load_text fs' (file_path this)) = concat (map split_nl (chunks @ tail))"
    unfolding new buffer by (rule split_nl_butlast_join [OF nonempty])
  have "load_text fs' (file_path this) \<noteq> []"
  proof
    assume "load_text fs' (file_path this) = []"
    then have "concat (map split_nl (chunks @ tail)) = [[]]"
      using lines by simp
    then have "get_scan this ts tf [] (concat (map split_nl (chunks @ tail))) = Next []"
      by (simp add: get_step_def trim_Nil is_ignore_line_def)
    with found show False by simp
  qed
  then have "stream_lines (load_stream (load_text fs' (file_path this)))
               = concat (map split_nl (chunks @ tail))"
    using lines by (simp add: stream_lines_load)
  then show ?thesis
    using found by (simp add: try_get_field_def Let_def)
qed

text \<open>The decimal text of an \<open>int\<close> and its conversion by \<open>strtol\<close>.\<close>

lemma digit_char_code: "d < 10 \<Longrightarrow> (of_char (char_of (48 + d)) :: nat) = 48 + d"
  by simp

lemma show_nat_digits:
  "c \<in> set (show_nat n) \<Longrightarrow> 48 \<le> (of_char c :: nat) \<and> (of_char c :: nat) \<le> 57"
proof (induction n arbitrary: c rule: show_nat.induct)
  case (1 n)
  show ?case
  proof (cases "n < 10")
    case True
    then show ?thesis
      using "1.prems" digit_char_code [of n] by (subst (asm) show_nat.simps) auto
  next
    case False
    have "n mod 10 < 10" by simp
    then show ?thesis
      using False "1.prems" "1.IH" digit_char_code [of "n mod 10"]
      by (subst (asm) show_nat.simps) auto
  qed
qed

lemma show_nat_nonempty: "show_nat n \<noteq> []"
  by (subst show_nat.simps) simp

lemma dec_char_digit:
  assumes "48 \<le> (of_char c :: nat)" and "(of_char c :: nat) \<le> 57"
  shows "is_digit 10 c" and "digit_val c = of_char c - 48"
  using assms by (simp_all add: is_digit_def digit_val_def digit_of_def Let_def)

lemma ws_code: "is_ws c \<Longrightarrow> (of_char c :: nat) < 48"
  by (auto simp: is_ws_def whitespaces_def)

lemma dec_char_plain:
  assumes "48 \<le> (of_char c :: nat)"
  shows "\<not> is_ws c" and "c \<noteq> CHR ''-''" and "c \<noteq> CHR ''+''" and "c \<noteq> CHR 0x00"
    and "c \<noteq> CHR 0x0A"
  using assms ws_code [of c] by auto

lemma digits_val_snoc:
  "digits_val base (ds @ [c]) = digits_val base ds * base + digit_val c"
  by (simp add: digits_val_def)

lemma digits_val_show_nat: "digits_val 10 (show_nat n) = n"
proof (induction n rule: show_nat.induct)
  case (1 n)
  show ?case
  proof (cases "n < 10")
    case True
    then have "digits_val 10 [char_of (48 + n)] = n"
      using dec_char_digit(2) [of "char_of (48 + n)"] digit_char_code [of n]
      by (simp add: digits_val_def)
    then show ?thesis
      using True by (subst show_nat.simps) simp
  next
    case False
    have "n mod 10 < 10" by simp
    then have "digit_val (char_of (48 + n mod 10)) = n mod 10"
      using dec_char_digit(2) [of "char_of (48 + n mod 10)"] digit_char_code [of "n mod 10"]
      by simp
    then show ?thesis
      using False "1.IH" by (subst show_nat.simps) (simp add: digits_val_snoc)
  qed
qed

lemma decimal_run:
  assumes "\<And>c. c \<in> set ds \<Longrightarrow> 48 \<le> (of_char c :: nat) \<and> (of_char c :: nat) \<le> 57"
  shows "takeWhile (is_digit 10) ds = ds" and "dropWhile (is_digit 10) ds = []"
proof -
  have "\<And>x. x \<in> set ds \<Longrightarrow> is_digit 10 x"
    using assms dec_char_digit(1) by blast
  then show "takeWhile (is_digit 10) ds = ds" and "dropWhile (is_digit 10) ds = []"
    by simp_all
qed

lemma strtol_decimal:
  assumes "ds \<noteq> []"
    and dec: "\<And>c. c \<in> set ds \<Longrightarrow> 48 \<le> (of_char c :: nat) \<and> (of_char c :: nat) \<le> 57"
    and "int (digits_val 10 ds) \<le> LONG_MAX"
  shows "strtol ds 10 = \<lparr> result = int (digits_val 10 ds), endptr = length ds, erange = False \<rparr>"
proof -
  obtain c cs where ds: "ds = c # cs"
    using assms(1) by (cases ds) auto
  have c: "\<not> is_ws c" "c \<noteq> CHR ''-''" "c \<noteq> CHR ''+''"
    using dec [of c] dec_char_plain [of c] by (simp_all add: ds)
  have s1: "dropWhile is_ws ds = ds"
    using c(1) by (simp add: ds)
  have neg: "(case ds of [] \<Rightarrow> False | c # x \<Rightarrow> c = CHR ''-'') = False"
    using c(2) by (simp add: ds)
  have s2: "(case ds of [] \<Rightarrow> ds | c # r \<Rightarrow> if c = CHR ''-'' \<or> c = CHR ''+'' then r else ds) = ds"
    using c(2,3) by (simp add: ds)
  have range: "\<not> LONG_MAX < int (digits_val 10 ds)" "\<not> int (digits_val 10 ds) < LONG_MIN"
    using assms(3) by (simp_all add: LONG_MAX_def LONG_MIN_def)
  show ?thesis
    unfolding strtol_def Let_def s1 neg s2
    using assms(1) range by (simp add: decimal_run [OF dec])
qed

lemma strtol_minus_decimal:
  assumes "ds \<noteq> []"
    and dec: "\<And>c. c \<in> set ds \<Longrightarrow> 48 \<le> (of_char c :: nat) \<and> (of_char c :: nat) \<le> 57"
    and "LONG_MIN \<le> - int (digits_val 10 ds)"
  shows "strtol (CHR ''-'' # ds) 10
           = \<lparr> result = - int (digits_val 10 ds), endptr = Suc (length ds), erange = False \<rparr>"
proof -
  have s1: "dropWhile is_ws (CHR ''-'' # ds) = CHR ''-'' # ds"
    by (simp add: is_ws_simps)
  have range: "\<not> LONG_MAX < - int (digits_val 10 ds)" "\<not> - int (digits_val 10 ds) < LONG_MIN"
    using assms(3) by (simp_all add: LONG_MAX_def LONG_MIN_def)
  show ?thesis
    unfolding strtol_def Let_def s1
    using assms(1) range by (simp add: decimal_run [OF dec])
qed

lemma strtol_show_int:
  assumes "LONG_MIN \<le> k" and "k \<le> LONG_MAX"
  shows "strtol (show_int k) 10 = \<lparr> result = k, endptr = length (show_int k), erange = False \<rparr>"
proof (cases "k < 0")
  case False
  have "int (digits_val 10 (show_nat (nat k))) \<le> LONG_MAX"
    using False assms(2) by (simp add: digits_val_show_nat)
  from strtol_decimal [OF show_nat_nonempty show_nat_digits this] show ?thesis
    using False by (simp add: show_int_def digits_val_show_nat)
next
  case True
  have "LONG_MIN \<le> - int (digits_val 10 (show_nat (nat (- k))))"
    using True assms(1) by (simp add: digits_val_show_nat)
  from strtol_minus_decimal [OF show_nat_nonempty show_nat_digits this] show ?thesis
    using True by (simp add: show_int_def digits_val_show_nat)
qed

lemma show_int_chars:
  "c \<in> set (show_int k) \<Longrightarrow> \<not> is_ws c \<and> c \<noteq> CHR 0x00 \<and> c \<noteq> CHR 0x0A"
  using show_nat_digits [of c] dec_char_plain [of c]
  by (auto simp: show_int_def is_ws_simps split: if_splits)

lemma show_int_nonempty: "show_int k \<noteq> []"
  by (simp add: show_int_def show_nat_nonempty)

lemma plain_show_int: "plain (show_int k)"
proof -
  have "hd (show_int k) \<in> set (show_int k)" "last (show_int k) \<in> set (show_int k)"
    using show_int_nonempty [of k] by simp_all
  then have "trim (show_int k) = show_int k"
    using show_int_chars show_int_nonempty by (intro trim_self) blast+
  then show ?thesis
    using show_int_chars [of "CHR 0x0A" k] show_int_nonempty [of k] by (auto simp: plain_def)
qed

lemma read_int_show_int:
  fixes i :: "32 word"
  shows "is_convertable_to_long (show_int (sint i))"
    and "stol (show_int (sint i)) = Inr (sint i)"
proof -
  have "- (2 ^ 31) \<le> sint i" "sint i < 2 ^ 31"
    using sint_ge [of i] sint_lt [of i] by simp_all
  then have "LONG_MIN \<le> sint i" "sint i \<le> LONG_MAX"
    by (simp_all add: LONG_MIN_def LONG_MAX_def)
  note r = strtol_show_int [OF this]
  have c: "c_str (show_int (sint i)) = show_int (sint i)"
    using show_int_chars [of "CHR 0x00" "sint i"] by (intro c_str_id) blast
  show "is_convertable_to_long (show_int (sint i))"
    by (simp add: is_convertable_to_long_def c r)
  show "stol (show_int (sint i)) = Inr (sint i)"
    using show_int_nonempty [of "sint i"] by (simp add: stol_def c r)
qed

lemma plain_bool: "plain ''true''" "plain ''false''"
  by (simp_all add: plain_def trim_def is_ws_def whitespaces_def)

lemma toupper_bool: "map toupper ''true'' = ''TRUE''" "map toupper ''false'' = ''FALSE''"
  by code_simp+

lemma read_back_bool:
  "(let str = map toupper (if b then ''true'' else ''false'') in
    if str = ''TRUE'' \<or> str = ''1'' then True
    else if str = ''FALSE'' \<or> str = ''0'' then False else d) = b"
proof (cases b)
  case True
  then show ?thesis
    unfolding Let_def by (simp only: if_True toupper_bool) simp
next
  case False
  then show ?thesis
    unfolding Let_def by (simp only: if_False toupper_bool) simp
qed

text \<open>
  Where the mode is \<open>BOTH_MATCH\<close> outside the target section and no later header names the
  target section, the rest of the lines is written trimmed and the mode stays.
\<close>

lemma set_step_after_match:
  assumes "set_step this ts tf val cur BOTH_MATCH raw = Some (cur', mode', line)"
    and "cur \<noteq> ts" and "section_header this raw \<noteq> Some ts"
  shows "cur' \<noteq> ts \<and> mode' = BOTH_MATCH \<and> line = trim raw"
  using assms
  by (auto simp: set_step_def section_header_def Let_def split: if_splits option.splits)

lemma set_loop_after_match:
  assumes "set_loop this ts tf val cur BOTH_MATCH oss ls = Some (c, m, b)"
    and "cur \<noteq> ts" and "\<And>l. l \<in> set ls \<Longrightarrow> section_header this l \<noteq> Some ts"
  shows "m = BOTH_MATCH \<and> b = oss @ join_nl (map trim ls)"
  using assms
proof (induction ls arbitrary: cur oss)
  case Nil
  then show ?case by (simp add: join_nl_def)
next
  case (Cons raw ls)
  obtain cur' mode' line where
    step: "set_step this ts tf val cur BOTH_MATCH raw = Some (cur', mode', line)" and
    rest: "set_loop this ts tf val cur' mode' (oss @ line @ [CHR 0x0A]) ls = Some (c, m, b)"
    using Cons.prems(1) by (auto split: option.splits)
  have "section_header this raw \<noteq> Some ts"
    using Cons.prems(3) by simp
  from set_step_after_match [OF step Cons.prems(2) this]
  have s: "cur' \<noteq> ts" "mode' = BOTH_MATCH" "line = trim raw"
    by simp_all
  have "m = BOTH_MATCH \<and> b = (oss @ line @ [CHR 0x0A]) @ join_nl (map trim ls)"
    using rest s(1) Cons.prems(3) unfolding s(2) by (intro Cons.IH) simp_all
  then show ?case
    by (simp add: s(3) join_nl_Cons)
qed

text \<open>
  A field missing from the target section is inserted once, in front of the next header,
  where the lines before that header were written trimmed, leaving the loop in the target
  section with the mode \<open>SECTION_MATCH\<close>, and where no later header names the target section.
  It is appended after the last line where the document ends in that state.
\<close>

lemma set_step_next_header:
  assumes "section_header this hdr = Some name" and "name \<noteq> ts"
  shows "set_step this ts tf val cur SECTION_MATCH hdr
           = Some (name, BOTH_MATCH, tf @ [field_separator this] @ val @ [CHR 0x0A] @ trim hdr)"
  using assms
  by (auto simp: set_step_def section_header_def Let_def split: if_splits option.splits)

lemma missing_field_inserted_before_next_header:
  assumes "stream_lines (load_stream (load_text fs (file_path this))) = pre @ hdr # post"
    and "set_loop this ts tf val [] NO_MATCH [] pre = Some (ts, SECTION_MATCH, join_nl (map trim pre))"
    and "section_header this hdr = Some name" and "name \<noteq> ts"
    and "\<And>l. l \<in> set post \<Longrightarrow> section_header this l \<noteq> Some ts"
    and "set_field this fs ts tf val = (True, fs')"
  shows "contents fs' (file_path this) =
           Some (butlast (join_nl (map trim pre
                   @ [tf @ [field_separator this] @ val, trim hdr] @ map trim post)))"
proof -
  let ?asg = "tf @ [field_separator this] @ val"
  let ?oss = "join_nl (map trim pre) @ (?asg @ [CHR 0x0A] @ trim hdr) @ [CHR 0x0A]"
  obtain c m b where
    loop: "set_loop this ts tf val [] NO_MATCH [] (pre @ hdr # post) = Some (c, m, b)"
    using assms(1,6) by (auto simp: set_field_def Let_def split: option.splits)
  then have "set_loop this ts tf val name BOTH_MATCH ?oss post = Some (c, m, b)"
    using assms(2) set_step_next_header [OF assms(3,4), where tf = tf and val = val and cur = ts]
    by (simp add: set_loop_append)
  from set_loop_after_match [OF this assms(4) assms(5)]
  have m: "m = BOTH_MATCH" and b: "b = ?oss @ join_nl (map trim post)"
    by simp_all
  have "b = join_nl (map trim pre @ [?asg, trim hdr] @ map trim post)"
    unfolding b by (simp add: join_nl_def)
  moreover have "contents fs' (file_path this) = Some (butlast (b @ finish this ts tf val m))"
    using assms(1,6) loop by (auto simp: set_field_def Let_def split: if_splits)
  ultimately show ?thesis
    by (simp add: m finish_def)
qed

lemma missing_field_appended_at_end:
  assumes "stream_lines (load_stream (load_text fs (file_path this))) = pre"
    and "set_loop this ts tf val [] NO_MATCH [] pre = Some (ts, SECTION_MATCH, join_nl (map trim pre))"
    and "set_field this fs ts tf val = (True, fs')"
  shows "contents fs' (file_path this) =
           Some (butlast (join_nl (map trim pre @ [tf @ [field_separator this] @ val])))"
proof -
  have "contents fs' (file_path this)
          = Some (butlast (join_nl (map trim pre) @ finish this ts tf val SECTION_MATCH))"
    using assms by (auto simp: set_field_def Let_def split: if_splits)
  then show ?thesis
    by (simp add: finish_def join_nl_def)
qed

lemma insertion_placement_example:
  "contents (snd (write_str (Ini ''f.ini'')
      (single_file ''f.ini'' ''[A]\<newline>X=1\<newline>[B]\<newline>Y=2'') ''A'' ''Z'' ''q'')) ''f.ini''
     = Some ''[A]\<newline>X=1\<newline>Z=q\<newline>[B]\<newline>Y=2''"
  by code_simp

text \<open>
  \<^const>\<open>frame\<close> tells the lines that are kept from the ones that are replaced: an
  assignment of the target field in another section has to be written as it is, trimmed.
\<close>

lemma frame_keeps_other_sections:
  "frame (Ini ''f.ini'') ''A'' ''K'' ''2'' [] [''[A]'', ''K=1'', ''[B]'', ''K=5 '']
     [''[A]'', ''K=2'', ''[B]'', ''K=5'']
   \<and> \<not> frame (Ini ''f.ini'') ''A'' ''K'' ''2'' [] [''[A]'', ''K=1'', ''[B]'', ''K=5 '']
         [''[A]'', ''K=2'', ''[B]'', ''K=2'']
   \<and> \<not> frame (Ini ''f.ini'') ''A'' ''K'' ''2'' [] [''[A]'', ''K=1'', ''[B]'', ''K=5 '']
         [''[A]'', ''K=1'', ''[B]'', ''K=5'']
   \<and> \<not> frame (Ini ''f.ini'') ''A'' ''K'' ''2'' [] [''[A]'', ''K=1'', ''[B]'', ''K=5 '']
         [''K=2\<newline>[A]'', ''K=2'', ''[B]'', ''K=5'']"
  by code_simp

section \<open>Properties\<close>

text \<open>
  C10. Each of \<open>read_bool\<close>, \<open>read_int\<close>, \<open>read_double\<close> and \<open>read_str\<close> returns the file
  system it was given: the content of every path, the target file's included, and what can be
  opened for writing are as before the call, whatever the lookup finds.
\<close>

theorem reads_leave_files_unchanged:
  "snd (read_bool this fs sec fld db) = fs
   \<and> snd (read_int this fs sec fld di) = fs
   \<and> snd (read_double stod this fs sec fld dd) = fs
   \<and> snd (read_str this fs sec fld ds) = fs"
  using try_get_field_snd [of this fs sec fld]
  by (cases "try_get_field this fs sec fld")
     (simp add: read_bool_def read_int_def read_double_def read_str_def split: option.splits)

theorem reads_leave_files_unchanged_witness:
  "snd (read_str (Ini ''f.ini'') (single_file ''f.ini'' ''[A]\<newline>K=1'') ''A'' ''K'' ''d'')
     = single_file ''f.ini'' ''[A]\<newline>K=1''
   \<and> snd (read_int (Ini ''f.ini'') (single_file ''f.ini'' ''K=1'') ''A'' ''K'' 7)
     = single_file ''f.ini'' ''K=1''"
  by (simp only: reads_leave_files_unchanged)

text \<open>
  C3. The claim is that a header naming the target section leaves the mode at
  \<open>BOTH_MATCH\<close>, so that the assignment is written once. The code sets \<open>SECTION_MATCH\<close> on
  every such header: here the field is replaced in the first section \<open>A\<close>, the second header
  \<open>[A]\<close> puts the mode back, and the assignment is appended again at the end.
\<close>

theorem duplicate_header_resets_mode:
  "set_step (Ini ''f.ini'') ''A'' ''K'' ''9'' ''A'' BOTH_MATCH ''[A]''
     = Some (''A'', SECTION_MATCH, ''[A]'')
   \<and> fst (write_str (Ini ''f.ini'')
            (single_file ''f.ini'' ''[A]\<newline>K=1\<newline>[A]\<newline>X=2'') ''A'' ''K'' ''9'')
   \<and> contents (snd (write_str (Ini ''f.ini'')
            (single_file ''f.ini'' ''[A]\<newline>K=1\<newline>[A]\<newline>X=2'') ''A'' ''K'' ''9'')) ''f.ini''
     = Some ''[A]\<newline>K=9\<newline>[A]\<newline>X=2\<newline>K=9''"
  by code_simp

text \<open>
  C2. Whenever the lookup returns a raw value \<open>s\<close>, \<open>read_int\<close> returns the base-10
  conversion of \<open>s\<close>, narrowed to \<open>int\<close>, provided that the base-10, the base-8 or the
  base-16 conversion consumes all of \<open>s\<close> and that the base-10 conversion converts
  something within the range of \<open>long\<close>; otherwise it returns the default. The value is read
  as the C string \<open>s.c_str()\<close>, as \<open>strtol\<close> reads it. For the raw value \<open>0x10\<close>, which
  only base 16 consumes entirely, the result is 0.
\<close>

theorem read_int_validates_then_reparses_base10:
  assumes "fst (try_get_field this fs sec fld) = Some s"
  shows "fst (read_int this fs sec fld d) =
           (if (endptr (strtol (c_str s) 10) = length (c_str s)
                \<or> endptr (strtol (c_str s) 8) = length (c_str s)
                \<or> endptr (strtol (c_str s) 16) = length (c_str s))
               \<and> endptr (strtol (c_str s) 10) \<noteq> 0 \<and> \<not> erange (strtol (c_str s) 10)
            then word_of_int (result (strtol (c_str s) 10)) else d)
         \<and> (s = ''0x10'' \<longrightarrow> fst (read_int this fs sec fld d) = 0)"
proof -
  obtain fs' where t: "try_get_field this fs sec fld = (Some s, fs')"
    using assms by (cases "try_get_field this fs sec fld") simp
  have general: "fst (read_int this fs sec fld d) =
           (if (endptr (strtol (c_str s) 10) = length (c_str s)
                \<or> endptr (strtol (c_str s) 8) = length (c_str s)
                \<or> endptr (strtol (c_str s) 16) = length (c_str s))
               \<and> endptr (strtol (c_str s) 10) \<noteq> 0 \<and> \<not> erange (strtol (c_str s) 10)
            then word_of_int (result (strtol (c_str s) 10)) else d)"
    by (simp add: read_int_def t is_convertable_to_long_def stol_def Let_def)
  have hex: "c_str ''0x10'' = ''0x10''"
    by code_simp
  have b10: "strtol ''0x10'' 10 = \<lparr> result = 0, endptr = 1, erange = False \<rparr>"
    by code_simp
  have b16: "endptr (strtol ''0x10'' 16) = 4"
    by code_simp
  have "s = ''0x10'' \<longrightarrow> fst (read_int this fs sec fld d) = 0"
    using general by (simp add: hex b10 b16)
  with general show ?thesis by blast
qed

theorem read_int_validates_then_reparses_base10_witness:
  "fst (try_get_field (Ini ''f.ini'') (single_file ''f.ini'' ''[A]\<newline>K=0x10'') ''A'' ''K'')
     = Some ''0x10''
   \<and> fst (read_int (Ini ''f.ini'') (single_file ''f.ini'' ''[A]\<newline>K=0x10'') ''A'' ''K'' 7) = 0
   \<and> result (strtol ''0x10'' 16) = 16"
proof -
  have h: "fst (try_get_field (Ini ''f.ini'') (single_file ''f.ini'' ''[A]\<newline>K=0x10'') ''A'' ''K'')
     = Some ''0x10''"
    by code_simp
  have "result (strtol ''0x10'' 16) = 16"
    by code_simp
  then show ?thesis
    using h read_int_validates_then_reparses_base10 [OF h, of 7] by blast
qed

text \<open>
  C4. The lookup is a strict forward scan. When the loop reaches a malformed line \<open>bad\<close>
  (the lines \<open>pre\<close> before it were passed without a match, leaving the current section
  \<open>cur\<close>), every \<open>read_*\<close> returns the default, whatever lines \<open>post\<close> follow.
\<close>

theorem read_aborts_at_malformed_line:
  assumes "stream_lines (load_stream (load_text fs (file_path this))) = pre @ bad # post"
    and "get_scan this ts tf [] pre = Next cur"
    and "malformed this cur bad"
  shows "fst (read_bool this fs ts tf db) = db
         \<and> fst (read_int this fs ts tf di) = di
         \<and> fst (read_double stod this fs ts tf dd) = dd
         \<and> fst (read_str this fs ts tf ds) = ds"
proof -
  have "get_scan this ts tf [] (pre @ bad # post) = Return None"
    using assms(2,3) by (simp add: get_scan_append malformed_get_step)
  then have "fst (try_get_field this fs ts tf) = None"
    using assms(1) by (simp add: try_get_field_def Let_def)
  then show ?thesis
    by (simp add: reads_default)
qed

theorem read_aborts_at_malformed_line_witness:
  "stream_lines (load_stream (load_text (single_file ''f.ini'' ''[A]\<newline>oops\<newline>K=1'') (file_path (Ini ''f.ini''))))
     = [''[A]''] @ ''oops'' # [''K=1'']
   \<and> get_scan (Ini ''f.ini'') ''A'' ''K'' [] [''[A]''] = Next ''A''
   \<and> malformed (Ini ''f.ini'') ''A'' ''oops''
   \<and> fst (read_str (Ini ''f.ini'') (single_file ''f.ini'' ''[A]\<newline>oops\<newline>K=1'') ''A'' ''K'' ''d'') = ''d''
   \<and> fst (read_int (Ini ''f.ini'') (single_file ''f.ini'' ''[A]\<newline>oops\<newline>K=1'') ''A'' ''K'' 7) = 7
   \<and> fst (read_str (Ini ''f.ini'') (single_file ''f.ini'' ''[A]\<newline>K=1'') ''A'' ''K'' ''d'') = ''1''"
proof -
  have h1: "stream_lines (load_stream (load_text (single_file ''f.ini'' ''[A]\<newline>oops\<newline>K=1'') (file_path (Ini ''f.ini''))))
     = [''[A]''] @ ''oops'' # [''K=1'']"
    by code_simp
  have h2: "get_scan (Ini ''f.ini'') ''A'' ''K'' [] [''[A]''] = Next ''A''"
    by code_simp
  have h3: "malformed (Ini ''f.ini'') ''A'' ''oops''"
    by code_simp
  have "fst (read_str (Ini ''f.ini'') (single_file ''f.ini'' ''[A]\<newline>K=1'') ''A'' ''K'' ''d'') = ''1''"
    by code_simp
  then show ?thesis
    using h1 h2 h3
      read_aborts_at_malformed_line [OF h1 h2 h3, of False 7 "\<lambda>s. None" "0 :: int" "''d''"]
    by blast
qed

text \<open>
  C5. When the rewrite loop reaches a malformed line \<open>bad\<close> (the lines \<open>pre\<close> before it
  were passed, leaving the current section \<open>cur\<close>; which value is being written does not
  matter for that), every \<open>write_*\<close> returns \<open>false\<close> and the file system is the one before
  the call, whether or not the file could have been opened for writing.
\<close>

theorem write_aborts_at_malformed_line:
  assumes "stream_lines (load_stream (load_text fs (file_path this))) = pre @ bad # post"
    and "set_loop this ts tf v0 [] NO_MATCH [] pre = Some (cur, mode, oss)"
    and "malformed this cur bad"
  shows "write_bool this fs ts tf b = (False, fs)
         \<and> write_int this fs ts tf i = (False, fs)
         \<and> write_double show_double this fs ts tf x = (False, fs)
         \<and> write_str this fs ts tf s = (False, fs)"
proof -
  have fail: "set_field this fs ts tf val = (False, fs)" for val
  proof -
    obtain oss' where "set_loop this ts tf val [] NO_MATCH [] pre = Some (cur, mode, oss')"
      using set_loop_value_independent [of this ts tf v0 "[]" NO_MATCH "[]" pre val "[]"] assms(2)
      by (cases "set_loop this ts tf val [] NO_MATCH [] pre") auto
    then have "set_loop this ts tf val [] NO_MATCH [] (pre @ bad # post) = None"
      using assms(3) by (simp add: set_loop_append malformed_set_step)
    then show ?thesis
      using assms(1) by (simp add: set_field_def Let_def)
  qed
  then show ?thesis
    by (simp add: write_bool_def write_int_def write_double_def write_str_def)
qed

theorem write_aborts_at_malformed_line_witness:
  "stream_lines (load_stream (load_text (single_file ''f.ini'' ''Z=1\<newline>[A]'') (file_path (Ini ''f.ini''))))
     = [] @ ''Z=1'' # [''[A]'']
   \<and> set_loop (Ini ''f.ini'') ''A'' ''K'' ''v'' [] NO_MATCH [] [] = Some ([], NO_MATCH, [])
   \<and> malformed (Ini ''f.ini'') [] ''Z=1''
   \<and> write_str (Ini ''f.ini'') (single_file ''f.ini'' ''Z=1\<newline>[A]'') ''A'' ''K'' ''v''
       = (False, single_file ''f.ini'' ''Z=1\<newline>[A]'')
   \<and> write_int (Ini ''f.ini'') (single_file ''f.ini'' ''Z=1\<newline>[A]'') ''A'' ''K'' 5
       = (False, single_file ''f.ini'' ''Z=1\<newline>[A]'')"
proof -
  have h1: "stream_lines (load_stream (load_text (single_file ''f.ini'' ''Z=1\<newline>[A]'') (file_path (Ini ''f.ini''))))
     = [] @ ''Z=1'' # [''[A]'']"
    by code_simp
  have h2: "set_loop (Ini ''f.ini'') ''A'' ''K'' ''v'' [] NO_MATCH [] [] = Some ([], NO_MATCH, [])"
    by simp
  have h3: "malformed (Ini ''f.ini'') [] ''Z=1''"
    by code_simp
  show ?thesis
    using h1 h2 h3
      write_aborts_at_malformed_line [OF h1 h2 h3, of False 5 "\<lambda>x. []" "0 :: int" "''v''"]
    by blast
qed

text \<open>
  C8. When the loop reaches a line that assigns the target field in the target section
  (the lines \<open>pre\<close> before it were passed without a match) and the trimmed value of that
  line is empty, every \<open>read_*\<close> returns the default, as for a field that is absent.
\<close>

theorem read_empty_value_is_default:
  assumes "stream_lines (load_stream (load_text fs (file_path this))) = pre @ l # post"
    and "get_scan this ts tf [] pre = Next ts"
    and "field_assignment this l = Some (tf, [])"
  shows "fst (read_bool this fs ts tf db) = db
         \<and> fst (read_int this fs ts tf di) = di
         \<and> fst (read_double stod this fs ts tf dd) = dd
         \<and> fst (read_str this fs ts tf ds) = ds"
proof -
  have "get_step this ts tf ts l = Return None"
    using assms(3)
    by (auto simp: field_assignment_def get_step_def Let_def split: if_splits option.splits)
  then have "get_scan this ts tf [] (pre @ l # post) = Return None"
    using assms(2) by (simp add: get_scan_append)
  then have "fst (try_get_field this fs ts tf) = None"
    using assms(1) by (simp add: try_get_field_def Let_def)
  then show ?thesis
    by (simp add: reads_default)
qed

theorem read_empty_value_is_default_witness:
  "stream_lines (load_stream (load_text (single_file ''f.ini'' ''[A]\<newline>K= \<newline>K=1'') (file_path (Ini ''f.ini''))))
     = [''[A]''] @ ''K= '' # [''K=1'']
   \<and> get_scan (Ini ''f.ini'') ''A'' ''K'' [] [''[A]''] = Next ''A''
   \<and> field_assignment (Ini ''f.ini'') ''K= '' = Some (''K'', [])
   \<and> fst (read_str (Ini ''f.ini'') (single_file ''f.ini'' ''[A]\<newline>K= \<newline>K=1'') ''A'' ''K'' ''d'') = ''d''
   \<and> fst (read_bool (Ini ''f.ini'') (single_file ''f.ini'' ''[A]\<newline>K= \<newline>K=1'') ''A'' ''K'' False) = False"
proof -
  have h1: "stream_lines (load_stream (load_text (single_file ''f.ini'' ''[A]\<newline>K= \<newline>K=1'') (file_path (Ini ''f.ini''))))
     = [''[A]''] @ ''K= '' # [''K=1'']"
    by code_simp
  have h2: "get_scan (Ini ''f.ini'') ''A'' ''K'' [] [''[A]''] = Next ''A''"
    by code_simp
  have h3: "field_assignment (Ini ''f.ini'') ''K= '' = Some (''K'', [])"
    by code_simp
  show ?thesis
    using h1 h2 h3
      read_empty_value_is_default [OF h1 h2 h3, of False 0 "\<lambda>s. None" "0 :: int" "''d''"]
    by blast
qed

text \<open>
  C9. Let the file text be \<open>t\<close> followed by a line feed. The loop then takes the lines of
  \<open>t\<close> and one more, empty line, for which it writes a bare line feed to the buffer. When the
  loop ends in the mode \<open>SECTION_MATCH\<close> and the file can be written, the new content is the
  buffer \<open>oss\<close> of the lines of \<open>t\<close>, which ends with the line feed of the last of them, then
  that bare line feed, then the new assignment: an empty line stands between the last
  original line and the appended one.
\<close>

theorem trailing_newline_emits_empty_line:
  assumes "load_text fs (file_path this) = t @ [CHR 0x0A]"
    and "set_loop this ts tf val [] NO_MATCH [] (split_nl t) = Some (cur, mode, oss)"
  shows "stream_lines (load_stream (t @ [CHR 0x0A])) = split_nl t @ [[]]
         \<and> set_loop this ts tf val [] NO_MATCH [] (stream_lines (load_stream (t @ [CHR 0x0A])))
             = Some (cur, mode, oss @ [CHR 0x0A])
         \<and> oss \<noteq> [] \<and> last oss = CHR 0x0A
         \<and> (mode = SECTION_MATCH \<and> writable fs (file_path this) \<longrightarrow>
              set_field this fs ts tf val
                = (True, fs\<lparr> contents := (contents fs)(file_path this :=
                     Some (oss @ [CHR 0x0A] @ tf @ [field_separator this] @ val)) \<rparr>))"
proof -
  have lines: "stream_lines (load_stream (t @ [CHR 0x0A])) = split_nl t @ [[]]"
    using split_nl_append [of t "[]"] by (simp add: stream_lines_load)
  have loop: "set_loop this ts tf val [] NO_MATCH [] (stream_lines (load_stream (t @ [CHR 0x0A])))
             = Some (cur, mode, oss @ [CHR 0x0A])"
    using assms(2) by (simp add: lines set_loop_append set_step_empty_line)
  have buffer: "oss \<noteq> [] \<and> last oss = CHR 0x0A"
    using set_loop_buffer_end [OF assms(2)] by (simp add: split_nl_nonempty)
  have "set_field this fs ts tf val
          = (True, fs\<lparr> contents := (contents fs)(file_path this :=
               Some (oss @ [CHR 0x0A] @ tf @ [field_separator this] @ val)) \<rparr>)"
    if "mode = SECTION_MATCH" and "writable fs (file_path this)"
  proof -
    have "butlast ((oss @ [CHR 0x0A]) @ finish this ts tf val SECTION_MATCH)
            = oss @ [CHR 0x0A] @ tf @ [field_separator this] @ val"
      by (simp add: finish_def butlast_append)
    then show ?thesis
      using that loop by (simp add: set_field_def assms(1) Let_def del: append_assoc)
  qed
  with lines loop buffer show ?thesis by blast
qed

theorem trailing_newline_emits_empty_line_witness:
  "load_text (single_file ''f.ini'' ''[A]\<newline>X=1\<newline>'') (file_path (Ini ''f.ini''))
     = ''[A]\<newline>X=1'' @ [CHR 0x0A]
   \<and> set_loop (Ini ''f.ini'') ''A'' ''Z'' ''q'' [] NO_MATCH [] (split_nl ''[A]\<newline>X=1'')
       = Some (''A'', SECTION_MATCH, ''[A]\<newline>X=1\<newline>'')
   \<and> stream_lines (load_stream (''[A]\<newline>X=1'' @ [CHR 0x0A])) = split_nl ''[A]\<newline>X=1'' @ [[]]
   \<and> contents (snd (set_field (Ini ''f.ini'') (single_file ''f.ini'' ''[A]\<newline>X=1\<newline>'') ''A'' ''Z'' ''q''))
        ''f.ini'' = Some ''[A]\<newline>X=1\<newline>\<newline>Z=q''"
proof -
  have h1: "load_text (single_file ''f.ini'' ''[A]\<newline>X=1\<newline>'') (file_path (Ini ''f.ini''))
     = ''[A]\<newline>X=1'' @ [CHR 0x0A]"
    by code_simp
  have h2: "set_loop (Ini ''f.ini'') ''A'' ''Z'' ''q'' [] NO_MATCH [] (split_nl ''[A]\<newline>X=1'')
       = Some (''A'', SECTION_MATCH, ''[A]\<newline>X=1\<newline>'')"
    by code_simp
  have w: "writable (single_file ''f.ini'' ''[A]\<newline>X=1\<newline>'') (file_path (Ini ''f.ini''))"
    by (simp add: single_file_def)
  have p: "file_path (Ini ''f.ini'') = ''f.ini''"
    by code_simp
  have sep: "field_separator (Ini ''f.ini'') = CHR ''=''"
    by (simp add: Ini_def)
  note r = trailing_newline_emits_empty_line [OF h1 h2]
  have "set_field (Ini ''f.ini'') (single_file ''f.ini'' ''[A]\<newline>X=1\<newline>'') ''A'' ''Z'' ''q''
          = (True, (single_file ''f.ini'' ''[A]\<newline>X=1\<newline>'')\<lparr> contents :=
               (contents (single_file ''f.ini'' ''[A]\<newline>X=1\<newline>''))(file_path (Ini ''f.ini'') :=
                 Some (''[A]\<newline>X=1\<newline>'' @ [CHR 0x0A] @ ''Z'' @ [field_separator (Ini ''f.ini'')] @ ''q'')) \<rparr>)"
    using r w by blast
  then have "contents (snd (set_field (Ini ''f.ini'') (single_file ''f.ini'' ''[A]\<newline>X=1\<newline>'') ''A'' ''Z'' ''q''))
        ''f.ini'' = Some ''[A]\<newline>X=1\<newline>\<newline>Z=q''"
    by (simp add: p sep)
  with h1 h2 r show ?thesis by blast
qed

text \<open>
  C1, as the code has it. Every \<open>write_*\<close> is \<open>set_field\<close> on the text of its value. A
  write that succeeds stores the lines \<open>out\<close>, a line feed between them, where \<open>out\<close> follows
  the input lines one for one and in order. A line that assigns the target field inside the
  target section is replaced by the new assignment. Every other line (ignored lines, headers,
  assignments of other fields or in other sections) is stored with the white space at its two
  ends removed, not byte for byte, and otherwise unchanged; the new assignment is put in front
  of such a line only where it is a header that leaves the target section for a section of
  another name. After the last input line comes nothing, or the new assignment when the
  document ends in the target section, or a header of the target section and the new
  assignment.
\<close>

theorem write_keeps_other_lines_trimmed:
  assumes "set_field this fs ts tf val = (True, fs')"
  shows "\<exists>out. contents fs' (file_path this) = Some (butlast (join_nl out))
           \<and> frame this ts tf val []
                (stream_lines (load_stream (load_text fs (file_path this)))) out"
proof -
  let ?ls = "stream_lines (load_stream (load_text fs (file_path this)))"
  obtain cur mode oss where
    loop: "set_loop this ts tf val [] NO_MATCH [] ?ls = Some (cur, mode, oss)"
    using assms by (auto simp: set_field_def Let_def split: option.splits)
  define tail where
    "tail = (if mode = NO_MATCH
             then [[CHR ''[''] @ ts @ [CHR '']''], tf @ [field_separator this] @ val]
             else if mode = SECTION_MATCH then [tf @ [field_separator this] @ val] else [])"
  have fs': "contents fs' (file_path this) = Some (butlast (oss @ finish this ts tf val mode))"
    using assms loop by (auto simp: set_field_def Let_def split: if_splits)
  have "mode = SECTION_MATCH \<longrightarrow> cur = ts"
    using set_loop_section_match [OF loop] by simp
  then have "frame this ts tf val cur [] tail"
    by (simp add: tail_def)
  from set_loop_frame [OF loop _ this] obtain out where
    out: "oss = join_nl out" "frame this ts tf val [] ?ls (out @ tail)"
    by auto
  have "oss @ finish this ts tf val mode = join_nl (out @ tail)"
    unfolding finish_join_nl join_nl_append out(1) tail_def ..
  with fs' out(2) show ?thesis by metis
qed

theorem write_keeps_other_lines_trimmed_witness:
  "set_field (Ini ''f.ini'')
     (single_file ''f.ini'' ''  # c\<newline>[A]\<newline> K = 1\<newline>[B]\<newline>K=5 '') ''A'' ''K'' ''2''
     = (True, snd (set_field (Ini ''f.ini'')
          (single_file ''f.ini'' ''  # c\<newline>[A]\<newline> K = 1\<newline>[B]\<newline>K=5 '') ''A'' ''K'' ''2''))
   \<and> (\<exists>out. contents (snd (set_field (Ini ''f.ini'')
                (single_file ''f.ini'' ''  # c\<newline>[A]\<newline> K = 1\<newline>[B]\<newline>K=5 '') ''A'' ''K'' ''2''))
               (file_path (Ini ''f.ini'')) = Some (butlast (join_nl out))
          \<and> frame (Ini ''f.ini'') ''A'' ''K'' ''2'' []
               (stream_lines (load_stream (load_text
                  (single_file ''f.ini'' ''  # c\<newline>[A]\<newline> K = 1\<newline>[B]\<newline>K=5 '')
                  (file_path (Ini ''f.ini''))))) out)
   \<and> contents (snd (set_field (Ini ''f.ini'')
          (single_file ''f.ini'' ''  # c\<newline>[A]\<newline> K = 1\<newline>[B]\<newline>K=5 '') ''A'' ''K'' ''2''))
        ''f.ini'' = Some ''# c\<newline>[A]\<newline>K=2\<newline>[B]\<newline>K=5''"
proof -
  let ?F = "single_file ''f.ini'' ''  # c\<newline>[A]\<newline> K = 1\<newline>[B]\<newline>K=5 ''"
  have ok: "fst (set_field (Ini ''f.ini'') ?F ''A'' ''K'' ''2'')"
    by code_simp
  then have h: "set_field (Ini ''f.ini'') ?F ''A'' ''K'' ''2''
     = (True, snd (set_field (Ini ''f.ini'') ?F ''A'' ''K'' ''2''))"
    by (simp add: prod_eq_iff)
  have c: "contents (snd (set_field (Ini ''f.ini'') ?F ''A'' ''K'' ''2'')) ''f.ini''
             = Some ''# c\<newline>[A]\<newline>K=2\<newline>[B]\<newline>K=5''"
    by code_simp
  show ?thesis
    using h c write_keeps_other_lines_trimmed [OF h] by blast
qed

text \<open>
  C1, as the claim states it, fails: the write below succeeds and replaces the line of
  \<open>K\<close>, and the comment line, which had two spaces in front, is stored without them.
\<close>

theorem write_trims_other_lines_counterexample:
  "fst (write_str (Ini ''f.ini'') (single_file ''f.ini'' ''  # c\<newline>[A]\<newline>K=1'') ''A'' ''K'' ''2'')
   \<and> ''  # c'' \<in> set (stream_lines (load_stream ''  # c\<newline>[A]\<newline>K=1''))
   \<and> contents (snd (write_str (Ini ''f.ini'') (single_file ''f.ini'' ''  # c\<newline>[A]\<newline>K=1'') ''A'' ''K'' ''2''))
       ''f.ini'' = Some ''# c\<newline>[A]\<newline>K=2''
   \<and> ''  # c'' \<notin> set (split_nl ''# c\<newline>[A]\<newline>K=2'')"
  by code_simp

text \<open>
  C6. The claim is that a field missing from the target section is inserted once, in front
  of the next header. Here the target section \<open>A\<close> occurs twice without the field \<open>Z\<close>: the
  assignment is inserted in front of \<open>[B]\<close>, the second header \<open>[A]\<close> sets the mode back to
  \<open>SECTION_MATCH\<close>, and the assignment is appended a second time at the end.
\<close>

theorem missing_field_inserted_twice:
  "fst (write_str (Ini ''f.ini'')
          (single_file ''f.ini'' ''[A]\<newline>X=1\<newline>[B]\<newline>Y=2\<newline>[A]\<newline>W=3'') ''A'' ''Z'' ''q'')
   \<and> contents (snd (write_str (Ini ''f.ini'')
          (single_file ''f.ini'' ''[A]\<newline>X=1\<newline>[B]\<newline>Y=2\<newline>[A]\<newline>W=3'') ''A'' ''Z'' ''q'')) ''f.ini''
     = Some ''[A]\<newline>X=1\<newline>Z=q\<newline>[B]\<newline>Y=2\<newline>[A]\<newline>W=3\<newline>Z=q''"
  by code_simp

text \<open>
  C7, as the claim states it, fails: the empty string is written as an assignment with an
  empty value, which the lookup treats as absent, so that the default comes back.
\<close>

theorem round_trip_empty_string_counterexample:
  "fst (write_str (Ini ''f.ini'') (single_file ''f.ini'' []) ''A'' ''K'' [])
   \<and> contents (snd (write_str (Ini ''f.ini'') (single_file ''f.ini'' []) ''A'' ''K'' [])) ''f.ini''
       = Some ''[A]\<newline>K=''
   \<and> fst (read_str (Ini ''f.ini'')
            (snd (write_str (Ini ''f.ini'') (single_file ''f.ini'' []) ''A'' ''K'' []))
            ''A'' ''K'' ''d'') = ''d''
   \<and> ''d'' \<noteq> []"
  by code_simp

text \<open>
  C7, as the code has it. Let the section name be non-empty and free of \<open>]\<close> and line feeds,
  let the field name be plain and free of the separator, of NUL and of a leading \<open>[\<close>, and let
  neither the header nor the assignment line start with a comment prefix. Then a write that
  succeeds is read back: \<open>write_bool\<close> by \<open>read_bool\<close>, \<open>write_int\<close> by \<open>read_int\<close>,
  \<open>write_str\<close> by \<open>read_str\<close> for a plain string, and \<open>write_double\<close> by \<open>read_double\<close> for a
  value whose text is plain and is converted back to that value; whatever the default is.
\<close>

theorem write_then_read_round_trip:
  assumes "names_ok this ts tf"
  shows "(write_bool this fs ts tf b = (True, fs1) \<longrightarrow>
            line_ok this tf (if b then ''true'' else ''false'') \<longrightarrow>
            fst (read_bool this fs1 ts tf db) = b)
         \<and> (write_int this fs ts tf i = (True, fs2) \<longrightarrow>
            line_ok this tf (show_int (sint i)) \<longrightarrow>
            fst (read_int this fs2 ts tf di) = i)
         \<and> (write_str this fs ts tf s = (True, fs3) \<longrightarrow>
            plain s \<longrightarrow> line_ok this tf s \<longrightarrow>
            fst (read_str this fs3 ts tf ds) = s)
         \<and> (write_double show_double this fs ts tf x = (True, fs4) \<longrightarrow>
            plain (show_double x) \<longrightarrow> line_ok this tf (show_double x) \<longrightarrow>
            stod (show_double x) = Some x \<longrightarrow>
            fst (read_double stod this fs4 ts tf dd) = x)"
proof (intro conjI impI)
  assume w: "write_bool this fs ts tf b = (True, fs1)"
    and l: "line_ok this tf (if b then ''true'' else ''false'')"
  have "plain (if b then ''true'' else ''false'')"
    by (simp add: plain_bool)
  from set_field_read_back [OF w [unfolded write_bool_def] assms this l]
  obtain fs' where "try_get_field this fs1 ts tf = (Some (if b then ''true'' else ''false''), fs')"
    by (cases "try_get_field this fs1 ts tf") auto
  then show "fst (read_bool this fs1 ts tf db) = b"
    using read_back_bool [of b db] by (simp add: read_bool_def)
next
  assume w: "write_int this fs ts tf i = (True, fs2)"
    and l: "line_ok this tf (show_int (sint i))"
  from set_field_read_back [OF w [unfolded write_int_def] assms plain_show_int l]
  obtain fs' where "try_get_field this fs2 ts tf = (Some (show_int (sint i)), fs')"
    by (cases "try_get_field this fs2 ts tf") auto
  then show "fst (read_int this fs2 ts tf di) = i"
    by (simp add: read_int_def read_int_show_int)
next
  assume w: "write_str this fs ts tf s = (True, fs3)"
    and p: "plain s" and l: "line_ok this tf s"
  from set_field_read_back [OF w [unfolded write_str_def] assms p l]
  obtain fs' where "try_get_field this fs3 ts tf = (Some s, fs')"
    by (cases "try_get_field this fs3 ts tf") auto
  then show "fst (read_str this fs3 ts tf ds) = s"
    by (simp add: read_str_def)
next
  assume w: "write_double show_double this fs ts tf x = (True, fs4)"
    and p: "plain (show_double x)" and l: "line_ok this tf (show_double x)"
    and c: "stod (show_double x) = Some x"
  from set_field_read_back [OF w [unfolded write_double_def] assms p l]
  obtain fs' where "try_get_field this fs4 ts tf = (Some (show_double x), fs')"
    by (cases "try_get_field this fs4 ts tf") auto
  then show "fst (read_double stod this fs4 ts tf dd) = x"
    by (simp add: read_double_def c)
qed

theorem write_then_read_round_trip_witness:
  "names_ok (Ini ''f.ini'') ''A'' ''Z''
   \<and> fst (write_str (Ini ''f.ini'') (single_file ''f.ini'' ''[A]\<newline>X=1\<newline>[B]\<newline>Y=2'') ''A'' ''Z'' ''q'')
   \<and> fst (read_str (Ini ''f.ini'')
        (snd (write_str (Ini ''f.ini'') (single_file ''f.ini'' ''[A]\<newline>X=1\<newline>[B]\<newline>Y=2'') ''A'' ''Z'' ''q''))
        ''A'' ''Z'' ''d'') = ''q''
   \<and> fst (write_int (Ini ''f.ini'') (single_file ''f.ini'' ''[A]\<newline>Z=1'') ''A'' ''Z'' (- 120))
   \<and> fst (read_int (Ini ''f.ini'')
        (snd (write_int (Ini ''f.ini'') (single_file ''f.ini'' ''[A]\<newline>Z=1'') ''A'' ''Z'' (- 120)))
        ''A'' ''Z'' 7) = - 120
   \<and> fst (write_bool (Ini ''f.ini'') (single_file ''f.ini'' []) ''A'' ''Z'' True)
   \<and> fst (read_bool (Ini ''f.ini'')
        (snd (write_bool (Ini ''f.ini'') (single_file ''f.ini'' []) ''A'' ''Z'' True))
        ''A'' ''Z'' False)"
proof -
  let ?I = "Ini ''f.ini''"
  let ?F = "single_file ''f.ini'' ''[A]\<newline>X=1\<newline>[B]\<newline>Y=2''"
  let ?G = "single_file ''f.ini'' ''[A]\<newline>Z=1''"
  let ?H = "single_file ''f.ini'' []"
  have n: "names_ok ?I ''A'' ''Z''"
    by code_simp
  have s1: "fst (write_str ?I ?F ''A'' ''Z'' ''q'')"
    by code_simp
  then have s2: "write_str ?I ?F ''A'' ''Z'' ''q'' = (True, snd (write_str ?I ?F ''A'' ''Z'' ''q''))"
    by (simp add: prod_eq_iff)
  have s3: "plain ''q''" "line_ok ?I ''Z'' ''q''"
    by code_simp+
  have i1: "fst (write_int ?I ?G ''A'' ''Z'' (- 120))"
    by code_simp
  then have i2: "write_int ?I ?G ''A'' ''Z'' (- 120) = (True, snd (write_int ?I ?G ''A'' ''Z'' (- 120)))"
    by (simp add: prod_eq_iff)
  have i3: "line_ok ?I ''Z'' (show_int (sint (- 120 :: 32 word)))"
    by code_simp
  have b1: "fst (write_bool ?I ?H ''A'' ''Z'' True)"
    by code_simp
  then have b2: "write_bool ?I ?H ''A'' ''Z'' True = (True, snd (write_bool ?I ?H ''A'' ''Z'' True))"
    by (simp add: prod_eq_iff)
  have b3: "line_ok ?I ''Z'' (if True then ''true'' else ''false'')"
    by code_simp
  have "fst (read_str ?I (snd (write_str ?I ?F ''A'' ''Z'' ''q'')) ''A'' ''Z'' ''d'') = ''q''"
    using write_then_read_round_trip [OF n, THEN conjunct2, THEN conjunct2, THEN conjunct1] s2 s3
    by blast
  moreover have "fst (read_int ?I (snd (write_int ?I ?G ''A'' ''Z'' (- 120))) ''A'' ''Z'' 7) = - 120"
    using write_then_read_round_trip [OF n, THEN conjunct2, THEN conjunct1] i2 i3
    by blast
  moreover have "fst (read_bool ?I (snd (write_bool ?I ?H ''A'' ''Z'' True)) ''A'' ''Z'' False)"
    using write_then_read_round_trip [OF n, THEN conjunct1, of ?H True _ False] b2 b3
    by blast
  ultimately show ?thesis
    using n s1 i1 b1 by blast
qed

end
